theory Spec2Isabelle
  imports Main
begin

section \<open>JavaScript strings and numbers\<close>

text \<open>
  A string of the program is modelled as an Isabelle \<open>string\<close>: a list of code units below
  256 (the Latin-1 range).  The line terminators of that range are line feed (10) and
  carriage return (13); the white space that \<open>String.prototype.trim\<close> removes there is
  9 to 13, 32 and 160.
\<close>

definition code :: "char \<Rightarrow> nat" where
  "code c = of_char c"

definition isWhiteSpace :: "char \<Rightarrow> bool" where
  "isWhiteSpace c = (code c \<in> {9, 10, 11, 12, 13, 32, 160})"

definition trim :: "string \<Rightarrow> string" where
  "trim s = rev (dropWhile isWhiteSpace (rev (dropWhile isWhiteSpace s)))"

definition startsWith :: "string \<Rightarrow> string \<Rightarrow> bool" where
  "startsWith s p = (take (length p) s = p)"

definition endsWith :: "string \<Rightarrow> string \<Rightarrow> bool" where
  "endsWith s p = (length p \<le> length s \<and> drop (length s - length p) s = p)"

text \<open>\<open>toLowerCase\<close> on one code unit: A to Z, and the upper-case letters of Latin-1.\<close>

definition toLowerChar :: "char \<Rightarrow> char" where
  "toLowerChar c =
     (let n = code c in
      if (65 \<le> n \<and> n \<le> 90) \<or> (192 \<le> n \<and> n \<le> 222 \<and> n \<noteq> 215)
      then char_of (n + 32) else c)"

definition toLowerCase :: "string \<Rightarrow> string" where
  "toLowerCase s = map toLowerChar s"

text \<open>The character class \<open>[a-z0-9]\<close>.\<close>

definition isSlugChar :: "char \<Rightarrow> bool" where
  "isSlugChar c = ((97 \<le> code c \<and> code c \<le> 122) \<or> (48 \<le> code c \<and> code c \<le> 57))"

text \<open>Decimal digits of a non-negative integer, most significant first.\<close>

function showInt :: "int \<Rightarrow> string" where
  "showInt z =
     (if z < 10 then [char_of (48 + z)]
      else showInt (z div 10) @ [char_of (48 + z mod 10)])"
  by pat_completeness auto
termination
  by (relation "measure nat") auto

declare showInt.simps [simp del]

text \<open>
  A number of the program that \<open>parseInt(..) || 0\<close> can return, or that counts list
  positions: an integer-valued double, given by its exact value, or an infinity.  (NaN and
  \<open>-0\<close> are replaced by \<open>0\<close> at \<open>|| 0\<close>.)
\<close>

datatype jsnumber = NegInf | Fin int | PosInf

function bitlen :: "int \<Rightarrow> nat" where
  "bitlen z = (if z \<le> 0 then 0 else Suc (bitlen (z div 2)))"
  by pat_completeness auto
termination
  by (relation "measure nat") auto

declare bitlen.simps [simp del]

text \<open>
  The double nearest to a non-negative integer (ties to the even significand): integers
  below \<open>2^53\<close> are doubles; a larger one keeps its 53 leading bits, rounded.
\<close>

definition roundInt :: "int \<Rightarrow> int" where
  "roundInt z =
     (if z < 2 ^ 53 then z
      else let e = bitlen z - 53; q = z div 2 ^ e; r = z mod 2 ^ e; half = 2 ^ (e - 1)
           in (if r > half \<or> (r = half \<and> odd q) then q + 1 else q) * 2 ^ e)"

definition toNumber :: "int \<Rightarrow> jsnumber" where
  "toNumber z =
     (let m = roundInt \<bar>z\<bar>
      in if m \<ge> 2 ^ 1024 then (if z < 0 then NegInf else PosInf)
         else Fin (if z < 0 then - m else m))"

text \<open>
  \<open>Number::toString\<close> at a positive integer-valued double \<open>x\<close>: the digits are those of
  the decimal \<open>s * 10^(n-k)\<close> with the fewest significant digits \<open>k\<close> that still rounds
  to \<open>x\<close> (the closest such, if two); below \<open>2^53\<close> that is \<open>x\<close> itself.  Up to 21 digits
  the decimal is printed in full, beyond that in exponent notation.
\<close>

definition candidates :: "int \<Rightarrow> nat \<Rightarrow> int list" where
  "candidates x k =
     (let d = length (showInt x); p = 10 ^ (d - k); lo = x div p
      in filter (\<lambda>v. roundInt v = x) [lo * p, (lo + 1) * p])"

definition closest :: "int \<Rightarrow> int list \<Rightarrow> int" where
  "closest x vs =
     (case vs of [v] \<Rightarrow> v | [v, w] \<Rightarrow> (if x - v \<le> w - x then v else w) | _ \<Rightarrow> x)"

fun shortestFrom :: "int \<Rightarrow> nat \<Rightarrow> nat \<Rightarrow> int" where
  "shortestFrom x k 0 = x"
| "shortestFrom x k (Suc fuel) =
     (if candidates x k \<noteq> [] then closest x (candidates x k)
      else shortestFrom x (Suc k) fuel)"

definition shortest :: "int \<Rightarrow> int" where
  "shortest x = (if x < 2 ^ 53 then x else shortestFrom x 1 (length (showInt x)))"

definition stripZeros :: "string \<Rightarrow> string" where
  "stripZeros ds = rev (dropWhile (\<lambda>c. c = CHR ''0'') (rev ds))"

definition posToString :: "int \<Rightarrow> string" where
  "posToString x =
     (let ds = showInt (shortest x); n = length ds
      in if n \<le> 21 then ds
         else let s = stripZeros ds
              in (if length s = 1 then s else hd s # CHR ''.'' # tl s) @ ''e+'' @
                 showInt (int n - 1))"

definition numToString :: "int \<Rightarrow> string" where
  "numToString z = (if z < 0 then CHR ''-'' # posToString (- z) else posToString z)"

definition numberToString :: "jsnumber \<Rightarrow> string" where
  "numberToString x =
     (case x of
        NegInf \<Rightarrow> ''-Infinity''
      | PosInf \<Rightarrow> ''Infinity''
      | Fin z \<Rightarrow> numToString z)"

text \<open>
  \<open>parseInt(s, 10)\<close>: leading white space is skipped, one sign is read, then the longest
  run of decimal digits; no digit gives NaN (\<open>None\<close>).  The value is the double nearest to
  the integer the digits write.  (The language lets an implementation read the digits
  after the twentieth as zeros; the engine of Bun reads them all.)
\<close>

definition isDigit :: "char \<Rightarrow> bool" where
  "isDigit c = (48 \<le> code c \<and> code c \<le> 57)"

definition digitsValue :: "string \<Rightarrow> int" where
  "digitsValue ds = foldl (\<lambda>a c. 10 * a + (int (code c) - 48)) 0 ds"

definition parseInt :: "string \<Rightarrow> jsnumber option" where
  "parseInt s =
     (let s1 = dropWhile isWhiteSpace s;
          neg = startsWith s1 ''-'';
          s2 = (if startsWith s1 ''-'' \<or> startsWith s1 ''+'' then tl s1 else s1);
          ds = takeWhile isDigit s2
      in if ds = [] then None
         else Some (toNumber (if neg then - digitsValue ds else digitsValue ds)))"

section \<open>utils.ts: slugify\<close>

text \<open>
  \<open>text.replace(/[^a-z0-9]+/g, "-")\<close>: every maximal run of characters outside
  \<open>[a-z0-9]\<close> becomes one hyphen.
\<close>

function replaceNonSlug :: "string \<Rightarrow> string" where
  "replaceNonSlug [] = []"
| "replaceNonSlug (c # cs) =
     (if isSlugChar c then c # replaceNonSlug cs
      else CHR ''-'' # replaceNonSlug (dropWhile (\<lambda>d. \<not> isSlugChar d) cs))"
  by pat_completeness auto
termination
  by (relation "measure length") (auto simp: le_imp_less_Suc length_dropWhile_le)

text \<open>
  \<open>.replace(/^-|-$/g, "")\<close> (no \<open>m\<close> flag): a hyphen at index 0 is removed, and then a
  hyphen that is the last character of what remains.
\<close>

definition stripHyphens :: "string \<Rightarrow> string" where
  "stripHyphens s =
     (let s1 = (if startsWith s ''-'' then tl s else s)
      in if endsWith s1 ''-'' then butlast s1 else s1)"

definition slugify :: "string \<Rightarrow> string" where
  "slugify text = take 50 (stripHyphens (replaceNonSlug (toLowerCase text)))"

text \<open>For stating what the replacement leaves: no hyphen is followed by another hyphen.\<close>

fun noHyphenPair :: "string \<Rightarrow> bool" where
  "noHyphenPair (a # b # cs) = (\<not> (a = CHR ''-'' \<and> b = CHR ''-'') \<and> noHyphenPair (b # cs))"
| "noHyphenPair _ = True"

section \<open>The shell\<close>

text \<open>
  Every command the program hands to the shell (\<open>this.$\<close>) or spawns (\<open>Bun.spawn\<close>).
  The environment answers a command from the commands issued before it: \<open>None\<close> when the
  call throws (the shell throws on a non-zero exit status, \<open>Bun.spawn\<close> when the process
  cannot be started), \<open>Some out\<close> with the text of standard output otherwise.  The log
  of issued commands is the state that is threaded.
\<close>

datatype cmd =
    RmRf string
  | Cp string string
  | Touch string
  | GitWorktreePrune
  | GitBranchForceDelete string
  | GitBranchCreate string string
  | GitWorktreeAdd string string
  | GitStatusPorcelain string
  | GitWorktreeRemove string
  | GitCheckout string
  | GitMergeNoEdit string
  | GitBranchDelete string
  | GitDiffUnmerged
  | GitMergeAbort
  | GitPush string
  | GhPrCreate string string string string bool
  | Gh "string list"
  | MergePrompt "string list"

type_synonym env = "cmd list \<Rightarrow> cmd \<Rightarrow> string option"

definition sh :: "env \<Rightarrow> cmd \<Rightarrow> cmd list \<Rightarrow> string option \<times> cmd list" where
  "sh e c lg = (e lg c, lg @ [c])"

section \<open>Promises\<close>

text \<open>
  The program is asynchronous.  The call of an async function returns a promise and runs
  on only when the operation it awaits has completed; in between, the other calls that are
  under way take their turns on the same files and the same repository.  A promise over a
  shared state is resolved with a value, rejected with an exception, or pending on one
  awaited operation: \<open>Pending u k\<close> becomes \<open>k s\<close> when the operation completes in the
  state \<open>s\<close>, which it leaves as \<open>u s\<close>.
\<close>

datatype exception = SpawnFailed | WriteFailed

datatype ('s, 'a) promise =
    Resolved 'a
  | Rejected exception
  | Pending "'s \<Rightarrow> 's" "'s \<Rightarrow> ('s, 'a) promise"

text \<open>\<open>const a = await p; ...\<close> outside any \<open>try\<close>: a rejection of \<open>p\<close> is the caller's.\<close>

primrec await :: "('s, 'a) promise \<Rightarrow> ('a \<Rightarrow> ('s, 'b) promise) \<Rightarrow> ('s, 'b) promise" where
  "await (Resolved a) f = f a"
| "await (Rejected x) f = Rejected x"
| "await (Pending u k) f = Pending u (\<lambda>s. await (k s) f)"

text \<open>A promise that runs to its end with nothing else in between.\<close>

primrec settle :: "('s, 'a) promise \<Rightarrow> 's \<Rightarrow> (exception + 'a) \<times> 's" where
  "settle (Resolved a) s = (Inr a, s)"
| "settle (Rejected x) s = (Inl x, s)"
| "settle (Pending u k) s = settle (k s) (u s)"

text \<open>
  \<open>Promise.all\<close> over promises that are under way.  Which pending operation completes
  next is not decided by the program: a schedule names, step by step, the position of the
  promise whose operation completes (a position that is not pending lets the step pass);
  when the schedule is used up, the promises run to their ends one after the other.
  \<open>Promise.all\<close> is rejected as soon as one of the promises is, with its exception, and
  resolved with the values, in the order of the promises, when all of them are.  (The other
  promises are not cancelled by a rejection; what they do afterwards is not followed.)
\<close>

definition stepAt :: "nat \<Rightarrow> ('s, 'a) promise list \<Rightarrow> 's \<Rightarrow> ('s, 'a) promise list \<times> 's" where
  "stepAt k ps s =
     (if k < length ps then
        (case ps ! k of
           Pending u c \<Rightarrow> (ps[k := c s], u s)
         | Resolved a \<Rightarrow> (ps, s)
         | Rejected x \<Rightarrow> (ps, s))
      else (ps, s))"

fun firstRejected :: "('s, 'a) promise list \<Rightarrow> exception option" where
  "firstRejected [] = None"
| "firstRejected (Rejected x # ps) = Some x"
| "firstRejected (p # ps) = firstRejected ps"

fun settleAll :: "('s, 'a) promise list \<Rightarrow> 's \<Rightarrow> (exception + 'a list) \<times> 's" where
  "settleAll [] s = (Inr [], s)"
| "settleAll (p # ps) s =
     (case settle p s of
        (Inl x, s1) \<Rightarrow> (Inl x, s1)
      | (Inr a, s1) \<Rightarrow>
          (case settleAll ps s1 of
             (Inl x, s2) \<Rightarrow> (Inl x, s2)
           | (Inr as, s2) \<Rightarrow> (Inr (a # as), s2)))"

fun promiseAll :: "nat list \<Rightarrow> ('s, 'a) promise list \<Rightarrow> 's \<Rightarrow> (exception + 'a list) \<times> 's" where
  "promiseAll [] ps s =
     (case firstRejected ps of Some x \<Rightarrow> (Inl x, s) | None \<Rightarrow> settleAll ps s)"
| "promiseAll (k # ks) ps s =
     (case firstRejected ps of
        Some x \<Rightarrow> (Inl x, s)
      | None \<Rightarrow> (case stepAt k ps s of (ps1, s1) \<Rightarrow> promiseAll ks ps1 s1))"

text \<open>
  An awaited shell command: the command is logged and answered when it completes.  (Every
  such \<open>await\<close> of the executor's callees stands in a \<open>try\<close>, so a failure is a value.)
\<close>

definition shP :: "env \<Rightarrow> cmd \<Rightarrow> ('s \<times> cmd list, string option) promise" where
  "shP e c = Pending (\<lambda>(src, lg). (src, lg @ [c])) (\<lambda>(src, lg). Resolved (e lg c))"

section \<open>GitManager.createWorktree\<close>

record worktree =
  dir :: string
  branch :: string

definition branchName :: "string \<Rightarrow> int \<Rightarrow> string" where
  "branchName task agentNum = ''ralphy/agent-'' @ numToString agentNum @ ''-'' @ slugify task"

definition createWorktree ::
  "env \<Rightarrow> string \<Rightarrow> int \<Rightarrow> string \<Rightarrow> string \<Rightarrow> cmd list \<Rightarrow> worktree option \<times> cmd list" where
  "createWorktree e task agentNum worktreeBase baseBranch lg0 =
     (let name = branchName task agentNum;
          worktreeDir = worktreeBase @ ''/agent-'' @ numToString agentNum;
          (r1, lg1) = sh e GitWorktreePrune lg0
      in if r1 = None then (None, lg1)
         else
           let (r2, lg2) = sh e (GitBranchForceDelete name) lg1;
               (r3, lg3) = sh e (GitBranchCreate name baseBranch) lg2
           in if r3 = None then (None, lg3)
              else
                let (r4, lg4) = sh e (RmRf worktreeDir) lg3;
                    (r5, lg5) = sh e (GitWorktreeAdd worktreeDir name) lg4
                in if r5 = None then (None, lg5)
                   else (Some \<lparr>dir = worktreeDir, branch = name\<rparr>, lg5))"

section \<open>GitManager: cleanupWorktree, mergeBranch, getConflictedFiles, abortMerge\<close>

text \<open>\<open>s.split(sep)\<close> for a one-character separator: never empty, \<open>"".split(sep)\<close> is \<open>[""]\<close>.\<close>

fun split :: "char \<Rightarrow> string \<Rightarrow> string list" where
  "split sep [] = [[]]"
| "split sep (c # cs) =
     (if c = sep then [] # split sep cs
      else (case split sep cs of [] \<Rightarrow> [[c]] | l # ls \<Rightarrow> (c # l) # ls))"

text \<open>
  \<open>cleanupWorktree\<close>: the status query, then the removal unless the trimmed status is
  non-empty.  A throwing command is caught and ends the function.
\<close>

definition cleanupWorktree :: "env \<Rightarrow> string \<Rightarrow> cmd list \<Rightarrow> cmd list" where
  "cleanupWorktree e worktreeDir lg0 =
     (let (r1, lg1) = sh e (GitStatusPorcelain worktreeDir) lg0
      in case r1 of
           None \<Rightarrow> lg1
         | Some status \<Rightarrow>
             if trim status \<noteq> [] then lg1
             else snd (sh e (GitWorktreeRemove worktreeDir) lg1))"

definition mergeBranch :: "env \<Rightarrow> string \<Rightarrow> string \<Rightarrow> cmd list \<Rightarrow> bool \<times> cmd list" where
  "mergeBranch e name baseBranch lg0 =
     (let (r1, lg1) = sh e (GitCheckout baseBranch) lg0
      in if r1 = None then (False, lg1)
         else
           let (r2, lg2) = sh e (GitMergeNoEdit name) lg1
           in if r2 = None then (False, lg2)
              else
                let (r3, lg3) = sh e (GitBranchDelete name) lg2
                in if r3 = None then (False, lg3) else (True, lg3))"

definition getConflictedFiles :: "env \<Rightarrow> cmd list \<Rightarrow> string list \<times> cmd list" where
  "getConflictedFiles e lg0 =
     (let (r1, lg1) = sh e GitDiffUnmerged lg0
      in case r1 of
           None \<Rightarrow> ([], lg1)
         | Some output \<Rightarrow> (filter (\<lambda>f. f \<noteq> []) (split (CHR 0x0A) (trim output)), lg1))"

definition abortMerge :: "env \<Rightarrow> cmd list \<Rightarrow> cmd list" where
  "abortMerge e lg0 = snd (sh e GitMergeAbort lg0)"

section \<open>ParallelExecutor.handleCompletedBranches\<close>

record AgentResult =
  task :: string
  success :: bool
  rbranch :: string
  inputTokens :: int
  outputTokens :: int
  error :: "string option"

datatype prdSource = markdown | yaml | github

record RalphyConfig =
  maxIterations :: int
  maxParallel :: int
  baseBranch :: string
  createPr :: bool
  draftPr :: bool
  prdSource :: prdSource
  prdFile :: string
  githubRepo :: string
  githubLabel :: string

text \<open>The first loop: one \<open>mergeBranch\<close> per branch, the failures collected in order.\<close>

fun mergeLoop :: "env \<Rightarrow> string \<Rightarrow> string list \<Rightarrow> string list \<Rightarrow> cmd list \<Rightarrow> string list \<times> cmd list" where
  "mergeLoop e base [] failedMerges lg = (failedMerges, lg)"
| "mergeLoop e base (b # bs) failedMerges lg =
     (let (ok, lg1) = mergeBranch e b base lg
      in if ok then mergeLoop e base bs failedMerges lg1
         else mergeLoop e base bs (failedMerges @ [b]) lg1)"

text \<open>
  The second loop, over the failed branches: the conflicted files are listed, the merge
  prompt is built when there are any (nothing is sent: the place is marked in the log by
  \<open>MergePrompt\<close>, which no environment answers), and the merge is aborted.
\<close>

fun resolveLoop :: "env \<Rightarrow> string list \<Rightarrow> cmd list \<Rightarrow> cmd list" where
  "resolveLoop e [] lg = lg"
| "resolveLoop e (b # bs) lg =
     (let (conflicts, lg1) = getConflictedFiles e lg;
          lg2 = (if conflicts \<noteq> [] then lg1 @ [MergePrompt conflicts] else lg1)
      in resolveLoop e bs (abortMerge e lg2))"

text \<open>The result is the list printed as unresolved, and the log.\<close>

definition handleCompletedBranches ::
  "RalphyConfig \<Rightarrow> env \<Rightarrow> AgentResult list \<Rightarrow> cmd list \<Rightarrow> string list \<times> cmd list" where
  "handleCompletedBranches cfg e results lg0 =
     (let successfulBranches = map rbranch (filter (\<lambda>r. success r \<and> rbranch r \<noteq> []) results)
      in if successfulBranches = [] then ([], lg0)
         else if createPr cfg then ([], lg0)
         else
           let (failedMerges, lg1) = mergeLoop e (baseBranch cfg) successfulBranches [] lg0
           in if failedMerges \<noteq> [] then (failedMerges, resolveLoop e failedMerges lg1)
              else ([], lg1))"

text \<open>
  For stating what the merge loop does: the outcome of the merge attempt of each branch in
  turn, the log after all attempts, the commands \<open>mergeBranch\<close> issues, and the branches
  of a list whose attempt failed.
\<close>

fun mergeOutcomes :: "env \<Rightarrow> string \<Rightarrow> string list \<Rightarrow> cmd list \<Rightarrow> bool list" where
  "mergeOutcomes e base [] lg = []"
| "mergeOutcomes e base (b # bs) lg =
     fst (mergeBranch e b base lg) # mergeOutcomes e base bs (snd (mergeBranch e b base lg))"

fun mergeLog :: "env \<Rightarrow> string \<Rightarrow> string list \<Rightarrow> cmd list \<Rightarrow> cmd list" where
  "mergeLog e base [] lg = lg"
| "mergeLog e base (b # bs) lg = mergeLog e base bs (snd (mergeBranch e b base lg))"

fun isMergeCmd :: "cmd \<Rightarrow> bool" where
  "isMergeCmd (GitCheckout b) = True"
| "isMergeCmd (GitMergeNoEdit b) = True"
| "isMergeCmd (GitBranchDelete b) = True"
| "isMergeCmd c = False"

definition failedOf :: "string list \<Rightarrow> bool list \<Rightarrow> string list" where
  "failedOf bs oks = map fst (filter (\<lambda>p. \<not> snd p) (zip bs oks))"

section \<open>utils.ts: readFile, writeFile\<close>

text \<open>
  The backlog file: \<open>None\<close> when reading it throws.  \<open>readFile\<close> turns that into the empty
  string; \<open>writeFile\<close> replaces the content.
\<close>

type_synonym store = "string option"

definition readFile :: "store \<Rightarrow> string" where
  "readFile f = (case f of None \<Rightarrow> [] | Some content \<Rightarrow> content)"

definition writeFile :: "string \<Rightarrow> store" where
  "writeFile content = Some content"

section \<open>task-sources/yaml.ts\<close>

record YamlTask =
  title :: string
  completed :: bool
  parallel_group :: "jsnumber option"

record YamlTaskFile =
  tasks :: "YamlTask list"

definition dquote :: char where
  "dquote = CHR 0x22"

definition squote :: char where
  "squote = CHR 0x27"

definition newline :: char where
  "newline = CHR 0x0A"

text \<open>\<open>parseValue\<close>: trimmed, and without the quotes when it starts and ends with the same kind.\<close>

definition parseValue :: "string \<Rightarrow> string" where
  "parseValue v0 =
     (let v = trim v0
      in if (startsWith v [dquote] \<and> endsWith v [dquote]) \<or>
            (startsWith v [squote] \<and> endsWith v [squote])
         then butlast (tl v) else v)"

text \<open>The state of the loop of \<open>parseSimpleYaml\<close>, and one turn of it.\<close>

record pstate =
  result :: "YamlTask list"
  currentTask :: "YamlTask option"
  inTasks :: bool

definition pushCurrent :: "pstate \<Rightarrow> YamlTask list" where
  "pushCurrent st =
     (case currentTask st of
        None \<Rightarrow> result st
      | Some ct \<Rightarrow> if title ct \<noteq> [] then result st @ [ct] else result st)"

definition setProperty :: "YamlTask \<Rightarrow> string \<Rightarrow> YamlTask" where
  "setProperty ct trimmed =
     (let colonIndex = length (takeWhile (\<lambda>c. c \<noteq> CHR '':'') trimmed);
          key = trim (take colonIndex trimmed);
          v = trim (drop (colonIndex + 1) trimmed)
      in if key = ''title'' then ct\<lparr>title := parseValue v\<rparr>
         else if key = ''completed'' then ct\<lparr>completed := (v = ''true'')\<rparr>
         else if key = ''parallel_group''
           then ct\<lparr>parallel_group := Some (case parseInt v of None \<Rightarrow> Fin 0 | Some n \<Rightarrow> n)\<rparr>
         else ct)"

definition parseLine :: "pstate \<Rightarrow> string \<Rightarrow> pstate" where
  "parseLine st line =
     (let trimmed = trim line
      in if trimmed = [] \<or> startsWith trimmed ''#'' then st
         else if trimmed = ''tasks:'' then st\<lparr>inTasks := True\<rparr>
         else if \<not> inTasks st then st
         else if startsWith trimmed ''- '' then
           (let restOfLine = trim (drop 2 trimmed)
            in st\<lparr>result := pushCurrent st,
                  currentTask := Some \<lparr>title = (if startsWith restOfLine ''title:''
                                                  then parseValue (drop 6 restOfLine) else []),
                                        completed = False, parallel_group = None\<rparr>\<rparr>)
         else if currentTask st \<noteq> None \<and> CHR '':'' \<in> set trimmed then
           st\<lparr>currentTask := map_option (\<lambda>ct. setProperty ct trimmed) (currentTask st)\<rparr>
         else st)"

definition parseSimpleYaml :: "string \<Rightarrow> YamlTaskFile" where
  "parseSimpleYaml content =
     \<lparr>tasks = pushCurrent (foldl parseLine \<lparr>result = [], currentTask = None, inTasks = False\<rparr>
                            (split newline content))\<rparr>"

definition stringifyTask :: "YamlTask \<Rightarrow> string" where
  "stringifyTask t =
     ''  - title: '' @ [dquote] @ title t @ [dquote, newline] @
     ''    completed: '' @ (if completed t then ''true'' else ''false'') @ [newline] @
     (case parallel_group t of
        None \<Rightarrow> []
      | Some g \<Rightarrow> ''    parallel_group: '' @ numberToString g @ [newline])"

definition stringifyYaml :: "YamlTaskFile \<Rightarrow> string" where
  "stringifyYaml d = ''tasks:'' @ [newline] @ concat (map stringifyTask (tasks d))"

text \<open>The class \<open>YamlTaskSource\<close>, over the content of its file.\<close>

definition parseFile :: "store \<Rightarrow> YamlTaskFile" where
  "parseFile f =
     (let content = readFile f
      in if content = [] then \<lparr>tasks = []\<rparr> else parseSimpleYaml content)"

definition yaml_getRemainingTasks :: "store \<Rightarrow> string list" where
  "yaml_getRemainingTasks f = map title (filter (\<lambda>t. \<not> completed t) (tasks (parseFile f)))"

definition yaml_countRemaining :: "store \<Rightarrow> nat" where
  "yaml_countRemaining f = length (filter (\<lambda>t. \<not> completed t) (tasks (parseFile f)))"

definition yaml_countCompleted :: "store \<Rightarrow> nat" where
  "yaml_countCompleted f = length (filter (\<lambda>t. completed t) (tasks (parseFile f)))"

text \<open>\<open>data.tasks.find(t => t.title === task)\<close>, then \<open>taskItem.completed = true\<close>.\<close>

fun completeFirst :: "string \<Rightarrow> YamlTask list \<Rightarrow> YamlTask list" where
  "completeFirst name [] = []"
| "completeFirst name (t # ts) =
     (if title t = name then t\<lparr>completed := True\<rparr> # ts else t # completeFirst name ts)"

definition yaml_markComplete :: "string \<Rightarrow> store \<Rightarrow> store" where
  "yaml_markComplete name f =
     (let d = parseFile f
      in writeFile (stringifyYaml (d\<lparr>tasks := completeFirst name (tasks d)\<rparr>)))"

definition groupOf :: "YamlTask \<Rightarrow> jsnumber" where
  "groupOf t = (case parallel_group t of None \<Rightarrow> Fin 0 | Some g \<Rightarrow> g)"

definition getTasksByGroup :: "jsnumber \<Rightarrow> store \<Rightarrow> string list" where
  "getTasksByGroup g f =
     map title (filter (\<lambda>t. \<not> completed t \<and> groupOf t = g) (tasks (parseFile f)))"

text \<open>
  \<open>getParallelGroups\<close>: a \<open>Set\<close> keeps its members in insertion order, each once; the
  array is then sorted with the comparator \<open>(a, b) => a - b\<close>.  The difference of two
  equal infinities is NaN, which the sort reads as 0; \<open>compareSign\<close> is the sign the sort
  sees.  The sort is written as an insertion sort: the comparator is a strict total order
  on distinct numbers, so every sorting algorithm returns the same array.
\<close>

fun setAdd :: "'a list \<Rightarrow> 'a \<Rightarrow> 'a list" where
  "setAdd xs x = (if x \<in> set xs then xs else xs @ [x])"

fun compareSign :: "jsnumber \<Rightarrow> jsnumber \<Rightarrow> int" where
  "compareSign (Fin a) (Fin b) = sgn (a - b)"
| "compareSign NegInf NegInf = 0"
| "compareSign PosInf PosInf = 0"
| "compareSign NegInf b = - 1"
| "compareSign a PosInf = - 1"
| "compareSign a b = 1"

fun insertSorted :: "jsnumber \<Rightarrow> jsnumber list \<Rightarrow> jsnumber list" where
  "insertSorted x [] = [x]"
| "insertSorted x (y # ys) =
     (if compareSign x y < 0 then x # y # ys else y # insertSorted x ys)"

definition sortNumbers :: "jsnumber list \<Rightarrow> jsnumber list" where
  "sortNumbers xs = foldr insertSorted xs []"

definition getParallelGroups :: "store \<Rightarrow> jsnumber list" where
  "getParallelGroups f =
     sortNumbers (foldl setAdd [] (map groupOf (filter (\<lambda>t. \<not> completed t) (tasks (parseFile f)))))"

text \<open>The order of the numbers: \<open>-Infinity\<close> below every integer, \<open>Infinity\<close> above.\<close>

fun numLess :: "jsnumber \<Rightarrow> jsnumber \<Rightarrow> bool" where
  "numLess (Fin a) (Fin b) = (a < b)"
| "numLess NegInf NegInf = False"
| "numLess NegInf b = True"
| "numLess a NegInf = False"
| "numLess PosInf b = False"
| "numLess a PosInf = True"

section \<open>ParallelExecutor: runAgent, runBatches, runWithGroups\<close>

definition createPullRequest ::
  "env \<Rightarrow> string \<Rightarrow> string \<Rightarrow> string \<Rightarrow> string \<Rightarrow> bool \<Rightarrow> cmd list \<Rightarrow> string option \<times> cmd list" where
  "createPullRequest e name ttl body base draft lg0 =
     (let (r1, lg1) = sh e (GitPush name) lg0
      in if r1 = None then (None, lg1)
         else
           let (r2, lg2) = sh e (GhPrCreate base name ttl body draft) lg1
           in (map_option trim r2, lg2))"

text \<open>
  The methods of \<open>GitManager\<close> that an agent awaits, as promises: the same commands and
  the same tests as above, each command a step of its own.
\<close>

definition createWorktreeP ::
  "env \<Rightarrow> string \<Rightarrow> int \<Rightarrow> string \<Rightarrow> string \<Rightarrow> ('s \<times> cmd list, worktree option) promise" where
  "createWorktreeP e t agentNum worktreeBase base =
     (let name = branchName t agentNum;
          worktreeDir = worktreeBase @ ''/agent-'' @ numToString agentNum
      in await (shP e GitWorktreePrune) (\<lambda>r1.
           if r1 = None then Resolved None
           else await (shP e (GitBranchForceDelete name)) (\<lambda>r2.
                await (shP e (GitBranchCreate name base)) (\<lambda>r3.
                  if r3 = None then Resolved None
                  else await (shP e (RmRf worktreeDir)) (\<lambda>r4.
                       await (shP e (GitWorktreeAdd worktreeDir name)) (\<lambda>r5.
                         if r5 = None then Resolved None
                         else Resolved (Some \<lparr>dir = worktreeDir, branch = name\<rparr>)))))))"

definition createPullRequestP ::
  "env \<Rightarrow> string \<Rightarrow> string \<Rightarrow> string \<Rightarrow> string \<Rightarrow> bool \<Rightarrow> ('s \<times> cmd list, string option) promise" where
  "createPullRequestP e name ttl body base draft =
     await (shP e (GitPush name)) (\<lambda>r1.
       if r1 = None then Resolved None
       else await (shP e (GhPrCreate base name ttl body draft)) (\<lambda>r2.
              Resolved (map_option trim r2)))"

definition cleanupWorktreeP :: "env \<Rightarrow> string \<Rightarrow> ('s \<times> cmd list, unit) promise" where
  "cleanupWorktreeP e worktreeDir =
     await (shP e (GitStatusPorcelain worktreeDir)) (\<lambda>r1.
       case r1 of
         None \<Rightarrow> Resolved ()
       | Some status \<Rightarrow>
           if trim status \<noteq> [] then Resolved ()
           else await (shP e (GitWorktreeRemove worktreeDir)) (\<lambda>r2. Resolved ()))"

text \<open>
  The backlog file of the checklist and of the structured source, with what \<open>Bun.write\<close>
  meets: on a file that cannot be written it throws, and \<open>writeFile\<close> has no \<open>try\<close>.
  \<open>markComplete\<close> of either source awaits the read, computes the new content from what was
  read, and awaits the write; \<open>mark\<close> is the method as a function of the content read
  (\<open>md_markComplete\<close>, \<open>yaml_markComplete\<close>).
\<close>

record backlogFile =
  stored :: store
  readOnly :: bool

definition fileMarkComplete ::
  "(string \<Rightarrow> store \<Rightarrow> store) \<Rightarrow> string \<Rightarrow> (backlogFile \<times> cmd list, unit) promise" where
  "fileMarkComplete mark t =
     Pending (\<lambda>s. s) (\<lambda>(f, lg).
       Pending (\<lambda>(f1, lg1). (if readOnly f1 then f1 else f1\<lparr>stored := mark t (stored f)\<rparr>, lg1))
               (\<lambda>(f1, lg1). if readOnly f1 then Rejected WriteFailed else Resolved ()))"

text \<open>
  The executor's state: the results so far, the state of its task source, and the log of
  the shell.  \<open>dispatched\<close> is kept for stating claims: the arguments of the \<open>runAgent\<close>
  calls of each batch, in the order of the calls.  (The progress tracker only adds up
  token counts and branch names for the summary and is left out.)
\<close>

record 's executor =
  results :: "AgentResult list"
  source :: 's
  shlog :: "cmd list"
  dispatched :: "(string \<times> int) list list"

text \<open>
  \<open>runAgent\<close>.  The task source is an interface to the executor: its \<open>markComplete\<close> is a
  parameter, a promise that is awaited outside any \<open>try\<close>, so that its rejection rejects
  \<open>runAgent\<close>.  The agent itself is not run by the code (the result is set to success once
  the worktree exists).
\<close>

definition runAgent ::
  "env \<Rightarrow> RalphyConfig \<Rightarrow> string \<Rightarrow> string \<Rightarrow> (string \<Rightarrow> ('s \<times> cmd list, unit) promise) \<Rightarrow>
   string \<Rightarrow> int \<Rightarrow> ('s \<times> cmd list, AgentResult) promise" where
  "runAgent e cfg directory worktreeBase markComplete t agentNum =
     await (createWorktreeP e t agentNum worktreeBase (baseBranch cfg)) (\<lambda>wt.
       case wt of
         None \<Rightarrow>
           Resolved \<lparr>task = t, success = False, rbranch = [], inputTokens = 0, outputTokens = 0,
                     error = Some ''Failed to create worktree''\<rparr>
       | Some w \<Rightarrow>
           await (shP e (Cp (directory @ ''/'' @ prdFile cfg) (dir w @ ''/''))) (\<lambda>r2.
           await (if r2 = None then Resolved None
                  else shP e (Touch (dir w @ ''/progress.txt''))) (\<lambda>r3.
           await (if createPr cfg
                  then createPullRequestP e (branch w) t
                         (''Automated implementation by Ralphy (Agent '' @
                          numToString agentNum @ '')'')
                         (baseBranch cfg) (draftPr cfg)
                  else Resolved None) (\<lambda>prUrl.
           await (markComplete t) (\<lambda>u.
           await (cleanupWorktreeP e (dir w)) (\<lambda>v.
             Resolved \<lparr>task = t, success = True, rbranch = branch w, inputTokens = 0,
                       outputTokens = 0, error = None\<rparr>))))))"

text \<open>\<open>Array.prototype.slice(start, end)\<close>: a negative index counts from the end.\<close>

definition slice :: "'a list \<Rightarrow> int \<Rightarrow> int \<Rightarrow> 'a list" where
  "slice xs start fin =
     (let n = int (length xs);
          from = (if start < 0 then max (n + start) 0 else min start n);
          to = (if fin < 0 then max (n + fin) 0 else min fin n)
      in take (nat (to - from)) (drop (nat from) xs))"

definition calls :: "int \<Rightarrow> string list \<Rightarrow> (string \<times> int) list" where
  "calls i batch = map (\<lambda>p. (snd p, i + int (fst p) + 1)) (enumerate 0 batch)"

text \<open>
  One batch.  \<open>batch.map((task, idx) => this.runAgent(task, i + idx + 1))\<close> makes every
  call before any agent proceeds, and \<open>await Promise.all(promises)\<close> stands outside any
  \<open>try\<close>: when it is rejected so is \<open>runBatches\<close>, and the results of the batch are not
  recorded.  The schedule of a batch is the environment's: \<open>sched\<close> gives it from the
  commands issued before the batch.
\<close>

definition runBatch ::
  "(cmd list \<Rightarrow> nat list) \<Rightarrow> env \<Rightarrow> RalphyConfig \<Rightarrow> string \<Rightarrow> string \<Rightarrow>
   (string \<Rightarrow> ('s \<times> cmd list, unit) promise) \<Rightarrow> int \<Rightarrow> string list \<Rightarrow>
   's executor \<Rightarrow> (exception + unit) \<times> 's executor" where
  "runBatch sched e cfg directory worktreeBase markComplete i batch x =
     (let promises = map (\<lambda>c. runAgent e cfg directory worktreeBase markComplete (fst c) (snd c))
                         (calls i batch);
          x0 = x\<lparr>dispatched := dispatched x @ [calls i batch]\<rparr>
      in case promiseAll (sched (shlog x)) promises (source x, shlog x) of
           (Inl ex, st) \<Rightarrow> (Inl ex, x0\<lparr>source := fst st, shlog := snd st\<rparr>)
         | (Inr batchResults, st) \<Rightarrow>
             (Inr (), x0\<lparr>results := results x @ batchResults, source := fst st, shlog := snd st\<rparr>))"

text \<open>
  The loop of \<open>runBatches\<close>, from \<open>i\<close> on.  With \<open>maxParallel\<close> below 1 the loop variable
  never passes the end of the list, and the loop ends only where the check of
  \<open>maxIterations\<close> breaks it or a batch is rejected; where it does not end, the result is
  \<open>None\<close>.
\<close>

partial_function (option) runBatchesFrom ::
  "(cmd list \<Rightarrow> nat list) \<Rightarrow> env \<Rightarrow> RalphyConfig \<Rightarrow> string \<Rightarrow> string \<Rightarrow>
   (string \<Rightarrow> ('s \<times> cmd list, unit) promise) \<Rightarrow> string list \<Rightarrow> int \<Rightarrow>
   's executor \<Rightarrow> ((exception + unit) \<times> 's executor) option" where
  "runBatchesFrom sched e cfg directory worktreeBase markComplete ts i x =
     (if i < int (length ts) then
        (let batch = slice ts i (i + maxParallel cfg);
             r = runBatch sched e cfg directory worktreeBase markComplete i batch x
         in case fst r of
              Inl ex \<Rightarrow> Some (Inl ex, snd r)
            | Inr u \<Rightarrow>
                if maxIterations cfg > 0 \<and> int (length (results (snd r))) \<ge> maxIterations cfg
                then Some (Inr (), snd r)
                else runBatchesFrom sched e cfg directory worktreeBase markComplete ts
                       (i + maxParallel cfg) (snd r))
      else Some (Inr (), x))"

declare runBatchesFrom.simps [code]

definition runBatches ::
  "(cmd list \<Rightarrow> nat list) \<Rightarrow> env \<Rightarrow> RalphyConfig \<Rightarrow> string \<Rightarrow> string \<Rightarrow>
   (string \<Rightarrow> ('s \<times> cmd list, unit) promise) \<Rightarrow> string list \<Rightarrow>
   's executor \<Rightarrow> ((exception + unit) \<times> 's executor) option" where
  "runBatches sched e cfg directory worktreeBase markComplete ts x =
     runBatchesFrom sched e cfg directory worktreeBase markComplete ts 0 x"

text \<open>
  \<open>runWithGroups\<close>: the groups are read once; the tasks of each group are read from the
  file when its turn comes, and run with \<open>runBatches\<close>, whose rejection is not caught.
\<close>

fun runGroups ::
  "(cmd list \<Rightarrow> nat list) \<Rightarrow> env \<Rightarrow> RalphyConfig \<Rightarrow> string \<Rightarrow> string \<Rightarrow> jsnumber list \<Rightarrow>
   backlogFile executor \<Rightarrow> ((exception + unit) \<times> backlogFile executor) option" where
  "runGroups sched e cfg directory worktreeBase [] x = Some (Inr (), x)"
| "runGroups sched e cfg directory worktreeBase (g # gs) x =
     (let ts = getTasksByGroup g (stored (source x))
      in if ts = [] then runGroups sched e cfg directory worktreeBase gs x
         else (case runBatches sched e cfg directory worktreeBase
                      (fileMarkComplete yaml_markComplete) ts x of
                 None \<Rightarrow> None
               | Some r \<Rightarrow>
                   (case fst r of
                      Inl ex \<Rightarrow> Some (Inl ex, snd r)
                    | Inr u \<Rightarrow> runGroups sched e cfg directory worktreeBase gs (snd r))))"

definition runWithGroups ::
  "(cmd list \<Rightarrow> nat list) \<Rightarrow> env \<Rightarrow> RalphyConfig \<Rightarrow> string \<Rightarrow> string \<Rightarrow>
   backlogFile executor \<Rightarrow> ((exception + unit) \<times> backlogFile executor) option" where
  "runWithGroups sched e cfg directory worktreeBase x =
     runGroups sched e cfg directory worktreeBase (getParallelGroups (stored (source x))) x"

text \<open>
  For stating what the loop dispatches: the batches from position \<open>i\<close> on, \<open>n\<close> tasks
  at a time, each task with its slot number.
\<close>

function batchesFrom :: "nat \<Rightarrow> nat \<Rightarrow> string list \<Rightarrow> (string \<times> int) list list" where
  "batchesFrom n i ts =
     (if n = 0 \<or> length ts \<le> i then []
      else calls (int i) (take n (drop i ts)) # batchesFrom n (i + n) ts)"
  by pat_completeness auto
termination
  by (relation "measure (\<lambda>(n, i, ts). length ts - i)") auto

declare batchesFrom.simps [simp del]

section \<open>task-sources/markdown.ts\<close>

text \<open>
  With the \<open>m\<close> flag \<open>^\<close> matches at the start of the text and after a line terminator,
  \<open>$\<close> at its end and before a line terminator, and \<open>.\<close> matches any character but a
  line terminator.  A match of \<open>/^- \[ \] .+$/gm\<close> is therefore a whole line (the text
  between two terminators) that starts with \<open>"- [ ] "\<close> and has a character more; the
  matches of \<open>/^- \[ \]/gm\<close> are the lines that start with \<open>"- [ ]"\<close>, one each.
\<close>

definition isLineTerminator :: "char \<Rightarrow> bool" where
  "isLineTerminator c = (code c = 10 \<or> code c = 13)"

fun textLines :: "string \<Rightarrow> string list" where
  "textLines [] = [[]]"
| "textLines (c # cs) =
     (if isLineTerminator c then [] # textLines cs
      else (case textLines cs of [] \<Rightarrow> [[c]] | l # ls \<Rightarrow> (c # l) # ls))"

definition isPendingLine :: "string \<Rightarrow> bool" where
  "isPendingLine l = (startsWith l ''- [ ] '' \<and> 6 < length l)"

definition isDoneLine :: "string \<Rightarrow> bool" where
  "isDoneLine l = (startsWith l ''- [x] '' \<and> 6 < length l)"

definition md_getRemainingTasks :: "store \<Rightarrow> string list" where
  "md_getRemainingTasks f = map (drop 6) (filter isPendingLine (textLines (readFile f)))"

definition md_getAllTasks :: "store \<Rightarrow> (string \<times> bool) list" where
  "md_getAllTasks f =
     map (\<lambda>l. (drop 6 l, False)) (filter isPendingLine (textLines (readFile f))) @
     map (\<lambda>l. (drop 6 l, True)) (filter isDoneLine (textLines (readFile f)))"

definition md_countRemaining :: "store \<Rightarrow> nat" where
  "md_countRemaining f = length (filter (\<lambda>l. startsWith l ''- [ ]'') (textLines (readFile f)))"

definition md_countCompleted :: "store \<Rightarrow> nat" where
  "md_countCompleted f = length (filter (\<lambda>l. startsWith l ''- [x]'') (textLines (readFile f)))"

text \<open>
  \<open>markComplete\<close>.  \<open>escapeRegex\<close> escapes every syntax character of a pattern, so the
  pattern built from the task matches, at the start of a line, the text \<open>"- [ ] "\<close>
  followed by the task, character by character.  \<open>findMatch\<close> is the index of the first
  match from the current position (\<open>atStart\<close>: the position is the start of a line).
\<close>

fun findMatch :: "string \<Rightarrow> string \<Rightarrow> bool \<Rightarrow> nat option" where
  "findMatch pat [] atStart = (if atStart \<and> pat = [] then Some 0 else None)"
| "findMatch pat (c # cs) atStart =
     (if atStart \<and> startsWith (c # cs) pat then Some 0
      else map_option Suc (findMatch pat cs (isLineTerminator c)))"

text \<open>
  The replacement text of \<open>String.prototype.replace\<close>: \<open>$$\<close> is a dollar sign, \<open>$&\<close> the
  matched text, \<open>$`\<close> the text before the match and \<open>$'\<close> the text after it; the pattern
  has no capture group, so every other use of \<open>$\<close> stands for itself.
\<close>

fun getSubstitution :: "string \<Rightarrow> string \<Rightarrow> string \<Rightarrow> string \<Rightarrow> string" where
  "getSubstitution matched preceding following (a # b # cs) =
     (if a = CHR ''$'' \<and> b = CHR ''$'' then CHR ''$'' # getSubstitution matched preceding following cs
      else if a = CHR ''$'' \<and> b = CHR ''&'' then matched @ getSubstitution matched preceding following cs
      else if a = CHR ''$'' \<and> b = CHR 0x60 then preceding @ getSubstitution matched preceding following cs
      else if a = CHR ''$'' \<and> b = CHR 0x27 then following @ getSubstitution matched preceding following cs
      else a # getSubstitution matched preceding following (b # cs))"
| "getSubstitution matched preceding following cs = cs"

definition replaceFirst :: "string \<Rightarrow> string \<Rightarrow> string \<Rightarrow> string" where
  "replaceFirst content pat replacement =
     (case findMatch pat content True of
        None \<Rightarrow> content
      | Some p \<Rightarrow>
          take p content @
          getSubstitution pat (take p content) (drop (p + length pat) content) replacement @
          drop (p + length pat) content)"

definition md_markComplete :: "string \<Rightarrow> store \<Rightarrow> store" where
  "md_markComplete t f =
     writeFile (replaceFirst (readFile f) (''- [ ] '' @ t) (''- [x] '' @ t))"

section \<open>task-sources/github.ts\<close>

text \<open>
  \<open>runGhCommand\<close> spawns \<open>gh\<close> and returns its trimmed standard output, whatever the exit
  status.  Nothing catches an exception of \<open>Bun.spawn\<close> (the environment answers \<open>None\<close>:
  the process cannot be started): it leaves the calling method.
\<close>

definition runGhCommand :: "env \<Rightarrow> string list \<Rightarrow> cmd list \<Rightarrow> (exception + string) \<times> cmd list" where
  "runGhCommand e args lg0 =
     (let (r1, lg1) = sh e (Gh args) lg0
      in case r1 of
           None \<Rightarrow> (Inl SpawnFailed, lg1)
         | Some output \<Rightarrow> (Inr (trim output), lg1))"

record GithubTaskSource =
  repo :: string
  label :: string

definition listArgs :: "GithubTaskSource \<Rightarrow> string \<Rightarrow> string \<Rightarrow> string list" where
  "listArgs src state json =
     [''issue'', ''list'', ''--repo'', repo src, ''--state'', state, ''--json'', json] @
     (if label src \<noteq> [] then [''--label'', label src] else [])"

text \<open>
  \<open>JSON.parse\<close> and what the methods do with its result inside their \<open>try\<close> are parameters:
  \<open>decodeIssues\<close> gives the strings \<open>number:title\<close> of the issues, \<open>decodeCount\<close> their
  number, and \<open>None\<close> stands for an exception, which the \<open>catch\<close> turns into an empty
  answer.
\<close>

definition gh_getRemainingTasks ::
  "env \<Rightarrow> (string \<Rightarrow> string list option) \<Rightarrow> GithubTaskSource \<Rightarrow> cmd list \<Rightarrow>
   (exception + string list) \<times> cmd list" where
  "gh_getRemainingTasks e decodeIssues src lg0 =
     (let (r1, lg1) = runGhCommand e (listArgs src ''open'' ''number,title'') lg0
      in case r1 of
           Inl x \<Rightarrow> (Inl x, lg1)
         | Inr output \<Rightarrow>
             if output = [] then (Inr [], lg1)
             else (case decodeIssues output of
                     None \<Rightarrow> (Inr [], lg1)
                   | Some issues \<Rightarrow> (Inr issues, lg1)))"

definition gh_getAllTasks ::
  "env \<Rightarrow> (string \<Rightarrow> string list option) \<Rightarrow> GithubTaskSource \<Rightarrow> cmd list \<Rightarrow>
   (exception + (string \<times> bool) list) \<times> cmd list" where
  "gh_getAllTasks e decodeIssues src lg0 =
     (let (r1, lg1) = runGhCommand e (listArgs src ''open'' ''number,title'') lg0
      in case r1 of
           Inl x \<Rightarrow> (Inl x, lg1)
         | Inr openOutput \<Rightarrow>
             (let openTasks = (if openOutput = [] then []
                                else (case decodeIssues openOutput of
                                     None \<Rightarrow> []
                                   | Some issues \<Rightarrow> map (\<lambda>i. (i, False)) issues));
                  (r2, lg2) = runGhCommand e (listArgs src ''closed'' ''number,title'') lg1
              in case r2 of
                   Inl x \<Rightarrow> (Inl x, lg2)
                 | Inr closedOutput \<Rightarrow>
                     (Inr (openTasks @
                           (if closedOutput = [] then []
                            else (case decodeIssues closedOutput of
                                    None \<Rightarrow> []
                                  | Some issues \<Rightarrow> map (\<lambda>i. (i, True)) issues))), lg2)))"

definition gh_countRemaining ::
  "env \<Rightarrow> (string \<Rightarrow> string list option) \<Rightarrow> GithubTaskSource \<Rightarrow> cmd list \<Rightarrow>
   (exception + nat) \<times> cmd list" where
  "gh_countRemaining e decodeIssues src lg0 =
     (let (r1, lg1) = gh_getRemainingTasks e decodeIssues src lg0
      in (map_sum id length r1, lg1))"

definition gh_countCompleted ::
  "env \<Rightarrow> (string \<Rightarrow> nat option) \<Rightarrow> GithubTaskSource \<Rightarrow> cmd list \<Rightarrow>
   (exception + nat) \<times> cmd list" where
  "gh_countCompleted e decodeCount src lg0 =
     (let (r1, lg1) = runGhCommand e (listArgs src ''closed'' ''number'') lg0
      in case r1 of
           Inl x \<Rightarrow> (Inl x, lg1)
         | Inr output \<Rightarrow>
             if output = [] then (Inr 0, lg1)
             else (case decodeCount output of
                     None \<Rightarrow> (Inr 0, lg1)
                   | Some n \<Rightarrow> (Inr n, lg1)))"

section \<open>Notions for the round trip of the structured document\<close>

text \<open>
  A number that \<open>Number::toString\<close> prints in full, with no exponent: finite and below
  \<open>10^21\<close> in absolute value.  A number of the program is a double: rounding its absolute
  value changes nothing.
\<close>

definition printsInFull :: "jsnumber \<Rightarrow> bool" where
  "printsInFull g = (case g of Fin z \<Rightarrow> \<bar>z\<bar> < 10 ^ 21 | _ \<Rightarrow> False)"

definition isDouble :: "jsnumber \<Rightarrow> bool" where
  "isDouble g = (case g of Fin z \<Rightarrow> roundInt \<bar>z\<bar> = \<bar>z\<bar> | _ \<Rightarrow> True)"

text \<open>
  The lines \<open>stringifyYaml\<close> writes for a task, and the tasks it writes so that
  \<open>parseSimpleYaml\<close> reads them back: the title is not empty and has no line feed, and
  the group, if any, is a double printed in full.
\<close>

definition titleLine :: "string \<Rightarrow> string" where
  "titleLine T = ''  - title: '' @ [dquote] @ T @ [dquote]"

definition completedLine :: "bool \<Rightarrow> string" where
  "completedLine b = ''    completed: '' @ (if b then ''true'' else ''false'')"

definition groupLine :: "jsnumber \<Rightarrow> string" where
  "groupLine g = ''    parallel_group: '' @ numberToString g"

definition taskLines :: "YamlTask \<Rightarrow> string list" where
  "taskLines t =
     [titleLine (title t), completedLine (completed t)] @
     (case parallel_group t of None \<Rightarrow> [] | Some g \<Rightarrow> [groupLine g])"

definition wfTask :: "YamlTask \<Rightarrow> bool" where
  "wfTask t =
     (title t \<noteq> [] \<and> newline \<notin> set (title t) \<and>
      (case parallel_group t of None \<Rightarrow> True | Some g \<Rightarrow> isDouble g \<and> printsInFull g))"

text \<open>
  The invariants of the parsing loop: no title holds a line feed, no stored title is empty,
  and every group is a double.
\<close>

definition titlesOk :: "pstate \<Rightarrow> bool" where
  "titlesOk st =
     ((\<forall>t \<in> set (result st). title t \<noteq> [] \<and> newline \<notin> set (title t)) \<and>
      (\<forall>ct. currentTask st = Some ct \<longrightarrow> newline \<notin> set (title ct)))"

definition groupsOk :: "pstate \<Rightarrow> bool" where
  "groupsOk st =
     ((\<forall>t \<in> set (result st). \<forall>g. parallel_group t = Some g \<longrightarrow> isDouble g) \<and>
      (\<forall>ct g. currentTask st = Some ct \<longrightarrow> parallel_group ct = Some g \<longrightarrow> isDouble g))"

section \<open>Notions for the promises of a batch\<close>

text \<open>
  What holds of a promise however the steps of the others fall between its own: from every
  state in which \<open>I\<close> holds, each of its steps keeps \<open>I\<close>, and it is settled only with an
  outcome of which \<open>Q\<close> holds.
\<close>

primrec ends :: "('s \<Rightarrow> bool) \<Rightarrow> (exception + 'a \<Rightarrow> bool) \<Rightarrow> ('s, 'a) promise \<Rightarrow> bool" where
  "ends I Q (Resolved a) = Q (Inr a)"
| "ends I Q (Rejected x) = Q (Inl x)"
| "ends I Q (Pending u k) = (\<forall>s. I s \<longrightarrow> I (u s) \<and> ends I Q (k s))"

text \<open>The two results \<open>runAgent\<close> can return for a task in a slot.\<close>

definition failedResult :: "string \<Rightarrow> AgentResult" where
  "failedResult t =
     \<lparr>task = t, success = False, rbranch = [], inputTokens = 0, outputTokens = 0,
      error = Some ''Failed to create worktree''\<rparr>"

definition successResult :: "string \<Rightarrow> int \<Rightarrow> AgentResult" where
  "successResult t n =
     \<lparr>task = t, success = True, rbranch = branchName t n, inputTokens = 0, outputTokens = 0,
      error = None\<rparr>"

text \<open>The result \<open>runAgent\<close> returns for a call, one of the two.\<close>

definition resultOf :: "string \<times> int \<Rightarrow> AgentResult \<Rightarrow> bool" where
  "resultOf c a = (a = failedResult (fst c) \<or> a = successResult (fst c) (snd c))"

section \<open>Properties of slugify\<close>

lemma replaceNonSlug_chars:
  "list_all (\<lambda>c. isSlugChar c \<or> c = CHR ''-'') (replaceNonSlug s)"
  by (induction s rule: replaceNonSlug.induct) auto

lemma not_slug_hyphen: "\<not> isSlugChar (CHR ''-'')"
  by (simp add: isSlugChar_def code_def)

lemma replaceNonSlug_head:
  "xs = [] \<or> isSlugChar (hd xs) \<Longrightarrow>
   replaceNonSlug xs = [] \<or> isSlugChar (hd (replaceNonSlug xs))"
  by (cases xs) auto

lemma replaceNonSlug_dropWhile_head:
  "replaceNonSlug (dropWhile (\<lambda>d. \<not> isSlugChar d) cs) = [] \<or>
   isSlugChar (hd (replaceNonSlug (dropWhile (\<lambda>d. \<not> isSlugChar d) cs)))"
proof (rule replaceNonSlug_head)
  show "dropWhile (\<lambda>d. \<not> isSlugChar d) cs = [] \<or>
        isSlugChar (hd (dropWhile (\<lambda>d. \<not> isSlugChar d) cs))"
    using hd_dropWhile [of "\<lambda>d. \<not> isSlugChar d" cs] by blast
qed

lemma replaceNonSlug_noHyphenPair: "noHyphenPair (replaceNonSlug s)"
proof (induction s rule: replaceNonSlug.induct)
  case 1
  then show ?case by simp
next
  case (2 c cs)
  show ?case
  proof (cases "isSlugChar c")
    case True
    with 2 not_slug_hyphen show ?thesis
      by (cases "replaceNonSlug cs") auto
  next
    case False
    let ?r = "replaceNonSlug (dropWhile (\<lambda>d. \<not> isSlugChar d) cs)"
    from False 2 have ih: "noHyphenPair ?r" by simp
    from replaceNonSlug_dropWhile_head [of cs] have "?r = [] \<or> isSlugChar (hd ?r)" .
    with ih False not_slug_hyphen show ?thesis
      by (cases ?r) auto
  qed
qed

lemma stripHyphens_no_leading:
  assumes "noHyphenPair s"
  shows "\<not> startsWith (stripHyphens s) ''-''"
proof (cases s)
  case Nil
  then show ?thesis by (simp add: stripHyphens_def startsWith_def endsWith_def)
next
  case (Cons a as)
  show ?thesis
  proof (cases "a = CHR ''-''")
    case True
    show ?thesis
    proof (cases as)
      case Nil
      with Cons True show ?thesis
        by (simp add: stripHyphens_def startsWith_def endsWith_def)
    next
      case (Cons b bs)
      with \<open>s = a # as\<close> True assms have "b \<noteq> CHR ''-''" by simp
      with Cons \<open>s = a # as\<close> True show ?thesis
        by (cases bs rule: rev_cases) (auto simp: stripHyphens_def Let_def startsWith_def endsWith_def butlast_append)
    qed
  next
    case False
    with Cons show ?thesis
      by (cases as rule: rev_cases) (auto simp: stripHyphens_def Let_def startsWith_def endsWith_def butlast_append)
  qed
qed

lemma in_set_tl: "x \<in> set (tl xs) \<Longrightarrow> x \<in> set xs"
  by (cases xs) auto

lemma stripHyphens_chars:
  "list_all P s \<Longrightarrow> list_all P (stripHyphens s)"
  by (auto simp: stripHyphens_def Let_def list_all_iff dest: in_set_butlastD in_set_tl)

lemma startsWith_take:
  "startsWith (take n s) ''-'' \<Longrightarrow> startsWith s ''-''"
  by (cases s; cases n) (auto simp: startsWith_def)

text \<open>
  Claim C9.  The branch name of \<open>createWorktree\<close> is \<open>"ralphy/agent-" + n + "-" + slugify(task)\<close>
  whenever a worktree is returned, and the slug has at most 50 characters, all of them
  lower-case ASCII letters, digits or hyphens, and does not begin with a hyphen.
\<close>

theorem createWorktree_branch_slug:
  "(\<forall>w lg'. createWorktree e t n worktreeBase base lg = (Some w, lg') \<longrightarrow>
      branch w = ''ralphy/agent-'' @ numToString n @ ''-'' @ slugify t) \<and>
   length (slugify t) \<le> 50 \<and>
   list_all (\<lambda>c. isSlugChar c \<or> c = CHR ''-'') (slugify t) \<and>
   \<not> startsWith (slugify t) ''-''"
proof -
  have a: "\<forall>w lg'. createWorktree e t n worktreeBase base lg = (Some w, lg') \<longrightarrow>
      branch w = ''ralphy/agent-'' @ numToString n @ ''-'' @ slugify t"
    by (auto simp: createWorktree_def branchName_def Let_def split: prod.splits if_splits)
  have b: "length (slugify t) \<le> 50"
    by (simp add: slugify_def)
  have "list_all (\<lambda>c. isSlugChar c \<or> c = CHR ''-'') (stripHyphens (replaceNonSlug (toLowerCase t)))"
    by (rule stripHyphens_chars) (rule replaceNonSlug_chars)
  then have c: "list_all (\<lambda>c. isSlugChar c \<or> c = CHR ''-'') (slugify t)"
    by (auto simp: slugify_def list_all_iff dest: in_set_takeD)
  have "\<not> startsWith (stripHyphens (replaceNonSlug (toLowerCase t))) ''-''"
    by (rule stripHyphens_no_leading) (rule replaceNonSlug_noHyphenPair)
  then have d: "\<not> startsWith (slugify t) ''-''"
    unfolding slugify_def using startsWith_take by blast
  from a b c d show ?thesis by blast
qed

theorem createWorktree_branch_slug_witness:
  "createWorktree (\<lambda>lg c. Some []) ''Add Login!'' 3 ''/tmp/ralphy'' ''main'' [] =
     (Some \<lparr>dir = ''/tmp/ralphy/agent-3'', branch = ''ralphy/agent-3-add-login''\<rparr>,
      [GitWorktreePrune, GitBranchForceDelete ''ralphy/agent-3-add-login'',
       GitBranchCreate ''ralphy/agent-3-add-login'' ''main'', RmRf ''/tmp/ralphy/agent-3'',
       GitWorktreeAdd ''/tmp/ralphy/agent-3'' ''ralphy/agent-3-add-login'']) \<and>
   ''ralphy/agent-3-add-login'' = ''ralphy/agent-'' @ numToString 3 @ ''-'' @ slugify ''Add Login!'' \<and>
   length (slugify ''Add Login!'') \<le> 50 \<and>
   \<not> startsWith (slugify ''Add Login!'') ''-''"
proof -
  have ev: "createWorktree (\<lambda>lg c. Some []) ''Add Login!'' 3 ''/tmp/ralphy'' ''main'' [] =
     (Some \<lparr>dir = ''/tmp/ralphy/agent-3'', branch = ''ralphy/agent-3-add-login''\<rparr>,
      [GitWorktreePrune, GitBranchForceDelete ''ralphy/agent-3-add-login'',
       GitBranchCreate ''ralphy/agent-3-add-login'' ''main'', RmRf ''/tmp/ralphy/agent-3'',
       GitWorktreeAdd ''/tmp/ralphy/agent-3'' ''ralphy/agent-3-add-login''])"
    by code_simp
  note th = createWorktree_branch_slug [of "\<lambda>lg c. Some []" "''Add Login!''" 3 "''/tmp/ralphy''" "''main''" "[]"]
  from th ev have "branch \<lparr>dir = ''/tmp/ralphy/agent-3'', branch = ''ralphy/agent-3-add-login''\<rparr> =
      ''ralphy/agent-'' @ numToString 3 @ ''-'' @ slugify ''Add Login!''"
    by blast
  with th ev show ?thesis by simp
qed

section \<open>Properties of cleanupWorktree\<close>

lemma in_set_dropWhile: "c \<in> set s \<Longrightarrow> \<not> P c \<Longrightarrow> c \<in> set (dropWhile P s)"
  by (induction s) auto

lemma dropWhile_nonempty_iff: "dropWhile P s \<noteq> [] \<longleftrightarrow> (\<exists>c \<in> set s. \<not> P c)"
  by (induction s) auto

lemma trim_nonempty_iff: "trim s \<noteq> [] \<longleftrightarrow> (\<exists>c \<in> set s. \<not> isWhiteSpace c)"
proof -
  have "trim s \<noteq> [] \<longleftrightarrow> (\<exists>c \<in> set (dropWhile isWhiteSpace s). \<not> isWhiteSpace c)"
    by (simp add: trim_def dropWhile_nonempty_iff)
  also have "\<dots> \<longleftrightarrow> (\<exists>c \<in> set s. \<not> isWhiteSpace c)"
    by (meson in_set_dropWhile set_dropWhileD)
  finally show ?thesis .
qed

text \<open>
  Claim C7.  When the status query answers with a status that is non-empty after trimming
  (uncommitted changes), the query is the only command \<open>cleanupWorktree\<close> issues: no
  \<open>git worktree remove\<close>.  The removal is issued exactly when the query succeeds with a
  status that is empty after trimming.
\<close>

theorem cleanupWorktree_preserves_dirty:
  "(\<forall>status. e lg (GitStatusPorcelain d) = Some status \<and> trim status \<noteq> [] \<longrightarrow>
      cleanupWorktree e d lg = lg @ [GitStatusPorcelain d]) \<and>
   (cleanupWorktree e d lg = lg @ [GitStatusPorcelain d, GitWorktreeRemove d] \<longleftrightarrow>
      (\<exists>status. e lg (GitStatusPorcelain d) = Some status \<and> trim status = [])) \<and>
   (cleanupWorktree e d lg = lg @ [GitStatusPorcelain d] \<or>
    cleanupWorktree e d lg = lg @ [GitStatusPorcelain d, GitWorktreeRemove d])"
  by (auto simp: cleanupWorktree_def sh_def split: option.splits)

theorem cleanupWorktree_preserves_dirty_witness:
  "(\<lambda>lg c. Some '' M src/app.ts'') [] (GitStatusPorcelain ''/tmp/ralphy/agent-1'') = Some '' M src/app.ts'' \<and>
   trim '' M src/app.ts'' = ''M src/app.ts'' \<and>
   cleanupWorktree (\<lambda>lg c. Some '' M src/app.ts'') ''/tmp/ralphy/agent-1'' [] =
     [GitStatusPorcelain ''/tmp/ralphy/agent-1'']"
proof -
  have t: "trim '' M src/app.ts'' = ''M src/app.ts''"
    by code_simp
  from cleanupWorktree_preserves_dirty
    [of "\<lambda>lg c. Some '' M src/app.ts''" "[]" "''/tmp/ralphy/agent-1''"] t
  show ?thesis by simp
qed

section \<open>Properties of handleCompletedBranches\<close>

lemma mergeLoop_char:
  "mergeLoop e base bs f0 lg =
     (f0 @ failedOf bs (mergeOutcomes e base bs lg), mergeLog e base bs lg)"
  by (induction bs arbitrary: f0 lg) (auto simp: failedOf_def split: prod.splits)

lemma resolveLoop_char:
  "\<exists>res. resolveLoop e fs lg = lg @ res \<and> (\<forall>c \<in> set res. \<not> isMergeCmd c) \<and>
         length (filter (\<lambda>c. c = GitMergeAbort) res) = length fs"
proof (induction fs arbitrary: lg)
  case Nil
  then show ?case by simp
next
  case (Cons b bs)
  obtain conflicts lg1 where g: "getConflictedFiles e lg = (conflicts, lg1)"
    by (cases "getConflictedFiles e lg")
  then have lg1: "lg1 = lg @ [GitDiffUnmerged]"
    by (auto simp: getConflictedFiles_def sh_def split: option.splits)
  let ?lg2 = "if conflicts \<noteq> [] then lg1 @ [MergePrompt conflicts] else lg1"
  let ?lg3 = "abortMerge e ?lg2"
  from Cons.IH [of ?lg3] obtain res where
    r: "resolveLoop e bs ?lg3 = ?lg3 @ res" "\<forall>c \<in> set res. \<not> isMergeCmd c"
       "length (filter (\<lambda>c. c = GitMergeAbort) res) = length bs"
    by blast
  let ?pre = "[GitDiffUnmerged] @ (if conflicts \<noteq> [] then [MergePrompt conflicts] else []) @ [GitMergeAbort]"
  have l3: "?lg3 = lg @ ?pre"
    by (simp add: abortMerge_def sh_def lg1)
  have "resolveLoop e (b # bs) lg = lg @ (?pre @ res)"
    using g r(1) l3 by (simp del: append_assoc add: append_assoc [symmetric])
  moreover have "\<forall>c \<in> set (?pre @ res). \<not> isMergeCmd c"
    using r(2) by auto
  moreover have "length (filter (\<lambda>c. c = GitMergeAbort) (?pre @ res)) = length (b # bs)"
    using r(3) by auto
  ultimately show ?case by blast
qed

lemma handleCompletedBranches_structure:
  assumes "\<not> createPr cfg"
  shows "fst (handleCompletedBranches cfg e rs lg) =
           failedOf (map rbranch (filter (\<lambda>r. success r \<and> rbranch r \<noteq> []) rs))
             (mergeOutcomes e (baseBranch cfg)
                (map rbranch (filter (\<lambda>r. success r \<and> rbranch r \<noteq> []) rs)) lg) \<and>
         (\<exists>res. snd (handleCompletedBranches cfg e rs lg) =
                  mergeLog e (baseBranch cfg)
                    (map rbranch (filter (\<lambda>r. success r \<and> rbranch r \<noteq> []) rs)) lg @ res \<and>
                (\<forall>c \<in> set res. \<not> isMergeCmd c) \<and>
                length (filter (\<lambda>c. c = GitMergeAbort) res) =
                  length (fst (handleCompletedBranches cfg e rs lg)))"
proof -
  let ?bs = "map rbranch (filter (\<lambda>r. success r \<and> rbranch r \<noteq> []) rs)"
  let ?f = "failedOf ?bs (mergeOutcomes e (baseBranch cfg) ?bs lg)"
  let ?ml = "mergeLog e (baseBranch cfg) ?bs lg"
  show ?thesis
  proof (cases "?bs = []")
    case True
    then show ?thesis
      by (simp add: handleCompletedBranches_def failedOf_def)
  next
    case False
    show ?thesis
    proof (cases "?f = []")
      case True
      with False assms show ?thesis
        by (simp add: handleCompletedBranches_def mergeLoop_char)
    next
      case f: False
      from resolveLoop_char [of e ?f ?ml] obtain res where
        "resolveLoop e ?f ?ml = ?ml @ res" "\<forall>c \<in> set res. \<not> isMergeCmd c"
        "length (filter (\<lambda>c. c = GitMergeAbort) res) = length ?f"
        by blast
      with False f assms show ?thesis
        by (simp add: handleCompletedBranches_def mergeLoop_char Let_def)
    qed
  qed
qed

lemma mergeBranch_log:
  "\<exists>m. snd (mergeBranch e b base lg) = lg @ m \<and>
       length (filter (\<lambda>c. c = GitMergeNoEdit b') m) \<le> (if b = b' then 1 else 0)"
  by (auto simp: mergeBranch_def sh_def Let_def)

lemma mergeLog_count:
  "\<exists>m. mergeLog e base bs lg = lg @ m \<and>
       length (filter (\<lambda>c. c = GitMergeNoEdit b') m) \<le> count_list bs b'"
proof (induction bs arbitrary: lg)
  case Nil
  then show ?case by simp
next
  case (Cons b bs)
  from mergeBranch_log [of e b base lg b'] obtain m1 where
    m1: "snd (mergeBranch e b base lg) = lg @ m1"
        "length (filter (\<lambda>c. c = GitMergeNoEdit b') m1) \<le> (if b = b' then 1 else 0)"
    by blast
  from Cons.IH [of "lg @ m1"] obtain m2 where
    m2: "mergeLog e base bs (lg @ m1) = (lg @ m1) @ m2"
        "length (filter (\<lambda>c. c = GitMergeNoEdit b') m2) \<le> count_list bs b'"
    by blast
  have "mergeLog e base (b # bs) lg = lg @ (m1 @ m2)"
    using m1(1) m2(1) by simp
  moreover have "length (filter (\<lambda>c. c = GitMergeNoEdit b') (m1 @ m2)) \<le> count_list (b # bs) b'"
    using m1(2) m2(2) by (auto split: if_splits)
  ultimately show ?case by blast
qed

lemma filter_no_merge:
  "\<forall>c \<in> set res. \<not> isMergeCmd c \<Longrightarrow> filter (\<lambda>c. c = GitMergeNoEdit b') res = []"
  by (induction res) auto

lemma handleCompletedBranches_merge_count:
  assumes "\<not> createPr cfg"
  shows "length (filter (\<lambda>c. c = GitMergeNoEdit b)
                  (drop (length lg) (snd (handleCompletedBranches cfg e rs lg)))) \<le>
                count_list (map rbranch (filter (\<lambda>r. success r \<and> rbranch r \<noteq> []) rs)) b"
proof -
  let ?bs = "map rbranch (filter (\<lambda>r. success r \<and> rbranch r \<noteq> []) rs)"
  from handleCompletedBranches_structure [OF assms, of e rs lg] obtain res where
    r: "snd (handleCompletedBranches cfg e rs lg) = mergeLog e (baseBranch cfg) ?bs lg @ res"
       "\<forall>c \<in> set res. \<not> isMergeCmd c"
    by blast
  from mergeLog_count [of e "baseBranch cfg" ?bs lg b] obtain m where
    m: "mergeLog e (baseBranch cfg) ?bs lg = lg @ m"
       "length (filter (\<lambda>c. c = GitMergeNoEdit b) m) \<le> count_list ?bs b"
    by blast
  have "drop (length lg) (snd (handleCompletedBranches cfg e rs lg)) = m @ res"
    using r(1) m(1) by simp
  then show ?thesis
    using m(2) filter_no_merge [OF r(2), of b] by simp
qed

lemma count_list_distinct: "distinct xs \<Longrightarrow> count_list xs x \<le> 1"
  by (induction xs) (auto simp: count_list_0_iff)

lemma handleCompletedBranches_distinct_once:
  assumes "\<not> createPr cfg"
    and "distinct (map rbranch (filter (\<lambda>r. success r \<and> rbranch r \<noteq> []) rs))"
  shows "length (filter (\<lambda>c. c = GitMergeNoEdit b)
                  (drop (length lg) (snd (handleCompletedBranches cfg e rs lg)))) \<le> 1"
proof -
  from assms(2) have "count_list (map rbranch (filter (\<lambda>r. success r \<and> rbranch r \<noteq> []) rs)) b \<le> 1"
    by (rule count_list_distinct)
  with handleCompletedBranches_merge_count [OF assms(1), of b lg e rs] show ?thesis by linarith
qed

lemma handleCompletedBranches_example:
  "handleCompletedBranches
     \<lparr>maxIterations = 0, maxParallel = 2, baseBranch = ''main'', createPr = False,
       draftPr = False, prdSource = markdown, prdFile = ''PRD.md'', githubRepo = [],
       githubLabel = []\<rparr>
     (\<lambda>lg c. if c = GitMergeNoEdit ''ralphy/agent-1-a'' then None
             else if c = GitDiffUnmerged then Some ''src/a.ts'' else Some [])
     [\<lparr>task = ''A'', success = True, rbranch = ''ralphy/agent-1-a'', inputTokens = 0,
        outputTokens = 0, error = None\<rparr>,
      \<lparr>task = ''B'', success = True, rbranch = ''ralphy/agent-2-b'', inputTokens = 0,
        outputTokens = 0, error = None\<rparr>] [] =
     ([''ralphy/agent-1-a''],
      [GitCheckout ''main'', GitMergeNoEdit ''ralphy/agent-1-a'',
       GitCheckout ''main'', GitMergeNoEdit ''ralphy/agent-2-b'', GitBranchDelete ''ralphy/agent-2-b'',
       GitDiffUnmerged, MergePrompt [''src/a.ts''], GitMergeAbort])"
  by code_simp

section \<open>Properties of getParallelGroups\<close>

lemma numLess_trans: "numLess a b \<Longrightarrow> numLess b c \<Longrightarrow> numLess a c"
  by (cases a; cases b; cases c) auto

lemma numLess_total: "a \<noteq> b \<Longrightarrow> numLess a b \<or> numLess b a"
  by (cases a; cases b) auto

lemma numLess_irrefl: "\<not> numLess a a"
  by (cases a) auto

lemma compareSign_numLess: "compareSign a b < 0 \<longleftrightarrow> numLess a b"
  by (cases a; cases b) (auto simp: sgn_if)

lemma set_foldl_setAdd: "set (foldl setAdd acc xs) = set acc \<union> set xs"
  by (induction xs arbitrary: acc) auto

lemma distinct_foldl_setAdd: "distinct acc \<Longrightarrow> distinct (foldl setAdd acc xs)"
  by (induction xs arbitrary: acc) auto

lemma set_insertSorted: "set (insertSorted x ys) = insert x (set ys)"
  by (induction ys) auto

lemma sorted_insertSorted:
  "sorted_wrt numLess ys \<Longrightarrow> x \<notin> set ys \<Longrightarrow> sorted_wrt numLess (insertSorted x ys)"
proof (induction ys)
  case Nil
  then show ?case by simp
next
  case (Cons y ys)
  show ?case
  proof (cases "compareSign x y < 0")
    case True
    then have xy: "numLess x y" by (simp add: compareSign_numLess)
    have "\<forall>z \<in> set ys. numLess x z"
      using Cons.prems(1) xy numLess_trans by auto
    with True xy Cons.prems(1) show ?thesis by simp
  next
    case False
    from Cons.prems(2) have "x \<noteq> y" by auto
    with False numLess_total [of x y] have yx: "numLess y x" by (auto simp: compareSign_numLess)
    from Cons have "sorted_wrt numLess (insertSorted x ys)" by simp
    with False yx Cons.prems(1) show ?thesis by (simp add: set_insertSorted)
  qed
qed

lemma sortNumbers_props:
  "distinct xs \<Longrightarrow> sorted_wrt numLess (sortNumbers xs) \<and> set (sortNumbers xs) = set xs"
  unfolding sortNumbers_def
  by (induction xs) (auto simp: set_insertSorted sorted_insertSorted)

lemma sorted_wrt_numLess_distinct: "sorted_wrt numLess xs \<Longrightarrow> distinct xs"
  by (induction xs) (auto simp: numLess_irrefl)

text \<open>
  Claim C6.  \<open>getParallelGroups\<close> returns a list that is strictly ascending in the order
  of the numbers and has no duplicates, and whose members are exactly the values of
  \<open>parallel_group\<close>, 0 where it is missing, of the tasks that are not completed; a group
  whose tasks are all completed is therefore not a member.
\<close>

theorem getParallelGroups_sorted_unique:
  "sorted_wrt numLess (getParallelGroups f) \<and>
   distinct (getParallelGroups f) \<and>
   set (getParallelGroups f) =
     {case parallel_group t of None \<Rightarrow> Fin 0 | Some g \<Rightarrow> g |t.
        t \<in> set (tasks (parseFile f)) \<and> \<not> completed t}"
proof -
  let ?gs = "foldl setAdd [] (map groupOf (filter (\<lambda>t. \<not> completed t) (tasks (parseFile f))))"
  have d: "distinct ?gs" by (rule distinct_foldl_setAdd) simp
  from sortNumbers_props [OF d]
  have s: "sorted_wrt numLess (getParallelGroups f)" and e: "set (getParallelGroups f) = set ?gs"
    by (simp_all add: getParallelGroups_def)
  have "set ?gs = {case parallel_group t of None \<Rightarrow> Fin 0 | Some g \<Rightarrow> g |t.
        t \<in> set (tasks (parseFile f)) \<and> \<not> completed t}"
    by (auto simp: set_foldl_setAdd groupOf_def)
  with s e sorted_wrt_numLess_distinct [OF s] show ?thesis by simp
qed

text \<open>
  On a file with the groups 10, 2, 7, 2, a group 5 whose only task is completed and a task
  without group, the answer is 0, 2, 7, 10.
\<close>

theorem getParallelGroups_sorted_unique_witness:
  "getParallelGroups (Some (''tasks:'' @ [newline] @
      ''  - title: A'' @ [newline] @ ''    parallel_group: 10'' @ [newline] @
      ''  - title: B'' @ [newline] @ ''    parallel_group: 2'' @ [newline] @
      ''  - title: C'' @ [newline] @ ''    parallel_group: 7'' @ [newline] @
      ''  - title: D'' @ [newline] @ ''    parallel_group: 2'' @ [newline] @
      ''  - title: E'' @ [newline] @ ''    completed: true'' @ [newline] @
      ''    parallel_group: 5'' @ [newline] @
      ''  - title: F'' @ [newline])) = [Fin 0, Fin 2, Fin 7, Fin 10] \<and>
   sorted_wrt numLess [Fin 0, Fin 2, Fin 7, Fin 10] \<and>
   set [Fin 0, Fin 2, Fin 7, Fin 10] =
     {case parallel_group t of None \<Rightarrow> Fin 0 | Some g \<Rightarrow> g |t.
        t \<in> set (tasks (parseFile (Some (''tasks:'' @ [newline] @
      ''  - title: A'' @ [newline] @ ''    parallel_group: 10'' @ [newline] @
      ''  - title: B'' @ [newline] @ ''    parallel_group: 2'' @ [newline] @
      ''  - title: C'' @ [newline] @ ''    parallel_group: 7'' @ [newline] @
      ''  - title: D'' @ [newline] @ ''    parallel_group: 2'' @ [newline] @
      ''  - title: E'' @ [newline] @ ''    completed: true'' @ [newline] @
      ''    parallel_group: 5'' @ [newline] @
      ''  - title: F'' @ [newline])))) \<and> \<not> completed t}"
proof -
  let ?f = "Some (''tasks:'' @ [newline] @
      ''  - title: A'' @ [newline] @ ''    parallel_group: 10'' @ [newline] @
      ''  - title: B'' @ [newline] @ ''    parallel_group: 2'' @ [newline] @
      ''  - title: C'' @ [newline] @ ''    parallel_group: 7'' @ [newline] @
      ''  - title: D'' @ [newline] @ ''    parallel_group: 2'' @ [newline] @
      ''  - title: E'' @ [newline] @ ''    completed: true'' @ [newline] @
      ''    parallel_group: 5'' @ [newline] @
      ''  - title: F'' @ [newline])"
  have ev: "getParallelGroups ?f = [Fin 0, Fin 2, Fin 7, Fin 10]" by code_simp
  from getParallelGroups_sorted_unique [of ?f]
  have "sorted_wrt numLess (getParallelGroups ?f)" and
    "set (getParallelGroups ?f) =
     {case parallel_group t of None \<Rightarrow> Fin 0 | Some g \<Rightarrow> g |t.
        t \<in> set (tasks (parseFile ?f)) \<and> \<not> completed t}"
    by blast+
  then show ?thesis unfolding ev using ev by blast
qed

section \<open>Properties of promises\<close>

lemma settle_await:
  "settle (await p f) s =
     (case settle p s of (Inl x, s1) \<Rightarrow> (Inl x, s1) | (Inr a, s1) \<Rightarrow> settle (f a) s1)"
  by (induction p arbitrary: s) simp_all

lemma settle_shP: "settle (shP e c) (src, lg) = (Inr (e lg c), (src, lg @ [c]))"
  by (simp add: shP_def)

lemma settle_createWorktreeP:
  "settle (createWorktreeP e t n wb base) (src, lg) =
     (Inr (fst (createWorktree e t n wb base lg)), (src, snd (createWorktree e t n wb base lg)))"
  by (simp add: createWorktreeP_def createWorktree_def settle_await settle_shP sh_def Let_def)

lemma settle_cleanupWorktreeP:
  "settle (cleanupWorktreeP e d) (src, lg) = (Inr (), (src, cleanupWorktree e d lg))"
  by (simp add: cleanupWorktreeP_def cleanupWorktree_def settle_await settle_shP sh_def
      split: option.splits)

lemma settle_createPullRequestP:
  "settle (createPullRequestP e name ttl body base draft) (src, lg) =
     (Inr (fst (createPullRequest e name ttl body base draft lg)),
      (src, snd (createPullRequest e name ttl body base draft lg)))"
  by (simp add: createPullRequestP_def createPullRequest_def settle_await settle_shP sh_def)

lemma settle_fileMarkComplete:
  "settle (fileMarkComplete mark t) (f, lg) =
     (if readOnly f then (Inl WriteFailed, (f, lg))
      else (Inr (), (f\<lparr>stored := mark t (stored f)\<rparr>, lg)))"
  by (simp add: fileMarkComplete_def)

lemma ends_mono: "ends I Q p \<Longrightarrow> (\<And>r. Q r \<Longrightarrow> Q' r) \<Longrightarrow> ends I Q' p"
  by (induction p) auto

lemma ends_await:
  assumes "ends I R p"
    and "\<And>a. R (Inr a) \<Longrightarrow> ends I Q (f a)"
    and "\<And>x. R (Inl x) \<Longrightarrow> Q (Inl x)"
  shows "ends I Q (await p f)"
  using assms by (induction p) auto

lemma settle_ends:
  "ends I Q p \<Longrightarrow> I s \<Longrightarrow> Q (fst (settle p s)) \<and> I (snd (settle p s))"
  by (induction p arbitrary: s) auto

lemma stepAt_ends:
  assumes "list_all2 (ends I) qs ps" "I s"
  shows "list_all2 (ends I) qs (fst (stepAt k ps s)) \<and> I (snd (stepAt k ps s))"
proof (cases "k < length ps")
  case False
  with assms show ?thesis by (simp add: stepAt_def)
next
  case True
  from assms(1) True have e: "ends I (qs ! k) (ps ! k)"
    by (simp add: list_all2_conv_all_nth)
  show ?thesis
  proof (cases "ps ! k")
    case (Pending u c)
    with e assms(2) have "I (u s)" "ends I (qs ! k) (c s)" by simp_all
    moreover have "qs[k := qs ! k] = qs" by simp
    ultimately have "list_all2 (ends I) qs (ps[k := c s])"
      using assms(1) list_all2_update_cong [of "ends I" qs ps "qs ! k" "c s" k] by simp
    with Pending True \<open>I (u s)\<close> show ?thesis by (simp add: stepAt_def)
  qed (use assms True in \<open>simp_all add: stepAt_def\<close>)
qed

lemma firstRejected_ends:
  "list_all2 (ends I) qs ps \<Longrightarrow> firstRejected ps = Some x \<Longrightarrow> \<exists>q \<in> set qs. q (Inl x)"
proof (induction ps arbitrary: qs)
  case Nil
  then show ?case by simp
next
  case (Cons p ps)
  then obtain q qs' where q: "qs = q # qs'" "ends I q p" "list_all2 (ends I) qs' ps"
    by (auto simp: list_all2_Cons2)
  show ?case
  proof (cases p)
    case (Rejected y)
    with Cons.prems(2) q show ?thesis by auto
  next
    case (Resolved a)
    with Cons q show ?thesis by auto
  next
    case (Pending u c)
    with Cons q show ?thesis by auto
  qed
qed

lemma settleAll_ends:
  "list_all2 (ends I) qs ps \<Longrightarrow> I s \<Longrightarrow>
   I (snd (settleAll ps s)) \<and>
   (case fst (settleAll ps s) of
      Inl x \<Rightarrow> \<exists>q \<in> set qs. q (Inl x)
    | Inr as \<Rightarrow> list_all2 (\<lambda>q a. q (Inr a)) qs as)"
proof (induction ps arbitrary: qs s)
  case Nil
  then show ?case by simp
next
  case (Cons p ps)
  then obtain q qs' where q: "qs = q # qs'" "ends I q p" "list_all2 (ends I) qs' ps"
    by (auto simp: list_all2_Cons2)
  from settle_ends [OF q(2) Cons.prems(2)]
  have s1: "q (fst (settle p s))" "I (snd (settle p s))" by simp_all
  show ?case
  proof (cases "fst (settle p s)")
    case (Inl x)
    with s1 q(1) show ?thesis by (auto simp: split_beta)
  next
    case (Inr a)
    from Cons.IH [OF q(3) s1(2)] Inr s1(1) q(1) show ?thesis
      by (auto simp: split_beta split: sum.splits)
  qed
qed

lemma promiseAll_ends:
  "list_all2 (ends I) qs ps \<Longrightarrow> I s \<Longrightarrow>
   I (snd (promiseAll sched ps s)) \<and>
   (case fst (promiseAll sched ps s) of
      Inl x \<Rightarrow> \<exists>q \<in> set qs. q (Inl x)
    | Inr as \<Rightarrow> list_all2 (\<lambda>q a. q (Inr a)) qs as)"
proof (induction sched arbitrary: ps s)
  case Nil
  show ?case
  proof (cases "firstRejected ps")
    case None
    with settleAll_ends [OF Nil] show ?thesis by simp
  next
    case (Some x)
    with firstRejected_ends [OF Nil(1) Some] Nil(2) show ?thesis by simp
  qed
next
  case (Cons k ks)
  show ?case
  proof (cases "firstRejected ps")
    case None
    from stepAt_ends [OF Cons.prems, of k]
    have "list_all2 (ends I) qs (fst (stepAt k ps s))" "I (snd (stepAt k ps s))" by simp_all
    from Cons.IH [OF this] None show ?thesis by (simp add: split_beta)
  next
    case (Some x)
    with firstRejected_ends [OF Cons.prems(1) Some] Cons.prems(2) show ?thesis by simp
  qed
qed

lemma ends_shP: "ends (\<lambda>s. J (fst s)) (\<lambda>r. \<exists>v. r = Inr v) (shP e c)"
  by (auto simp: shP_def)

lemma ends_sh_await:
  assumes "\<And>r. ends (\<lambda>s. J (fst s)) Q (f r)"
  shows "ends (\<lambda>s. J (fst s)) Q (await (shP e c) f)"
  using assms by (auto simp: shP_def)

lemma ends_createWorktreeP:
  "ends (\<lambda>s. J (fst s))
     (\<lambda>r. r = Inr None \<or> r = Inr (Some \<lparr>dir = wb @ ''/agent-'' @ numToString n,
                                          branch = branchName t n\<rparr>))
     (createWorktreeP e t n wb base)"
  by (auto simp: createWorktreeP_def Let_def shP_def)

lemma ends_createWorktreeP_ok:
  assumes "\<And>lg c. e lg c \<noteq> None"
  shows "ends (\<lambda>s. J (fst s))
           (\<lambda>r. r = Inr (Some \<lparr>dir = wb @ ''/agent-'' @ numToString n, branch = branchName t n\<rparr>))
           (createWorktreeP e t n wb base)"
proof -
  have ok: "(e lg c = None) = False" for lg c using assms by simp
  show ?thesis
    by (auto simp: createWorktreeP_def Let_def shP_def ok)
qed

lemma ends_cleanupWorktreeP:
  "ends (\<lambda>s. J (fst s)) (\<lambda>r. r = Inr ()) (cleanupWorktreeP e d)"
  by (auto simp: cleanupWorktreeP_def shP_def split: option.splits)

lemma ends_createPullRequestP:
  "ends (\<lambda>s. J (fst s)) (\<lambda>r. \<exists>v. r = Inr v) (createPullRequestP e name ttl body base draft)"
  by (auto simp: createPullRequestP_def shP_def)

lemma ends_afterWorktree:
  assumes mc: "ends (\<lambda>s. J (fst s)) R mc0"
    and ok: "\<And>u. R (Inr u) \<Longrightarrow> Q (Inr \<lparr>task = t, success = True, rbranch = branch w, inputTokens = 0,
                       outputTokens = 0, error = None\<rparr>)"
    and rej: "\<And>x. R (Inl x) \<Longrightarrow> Q (Inl x)"
  shows "ends (\<lambda>s. J (fst s)) Q
     (await (shP e (Cp (directory @ ''/'' @ prdFile cfg) (dir w @ ''/''))) (\<lambda>r2.
      await (if r2 = None then Resolved None
             else shP e (Touch (dir w @ ''/progress.txt''))) (\<lambda>r3.
      await (if createPr cfg
             then createPullRequestP e (branch w) t
                    (''Automated implementation by Ralphy (Agent '' @
                     numToString agentNum @ '')'')
                    (baseBranch cfg) (draftPr cfg)
             else Resolved None) (\<lambda>prUrl.
      await mc0 (\<lambda>u.
      await (cleanupWorktreeP e (dir w)) (\<lambda>v.
        Resolved \<lparr>task = t, success = True, rbranch = branch w, inputTokens = 0,
                  outputTokens = 0, error = None\<rparr>))))))"
proof -
  let ?res = "\<lparr>task = t, success = True, rbranch = branch w, inputTokens = 0,
                  outputTokens = 0, error = None\<rparr>"
  have fin: "R (Inr u) \<Longrightarrow> ends (\<lambda>s. J (fst s)) Q
               (await (cleanupWorktreeP e (dir w)) (\<lambda>v. Resolved ?res))" for u
  proof -
    assume "R (Inr u)"
    from ok [OF this] have q: "Q (Inr ?res)" .
    show ?thesis
      by (rule ends_await [where R = "\<lambda>r. r = Inr ()"], rule ends_cleanupWorktreeP)
         (simp_all add: q)
  qed
  have m: "ends (\<lambda>s. J (fst s)) Q
             (await mc0 (\<lambda>u. await (cleanupWorktreeP e (dir w)) (\<lambda>v. Resolved ?res)))"
    by (rule ends_await [OF mc]) (simp_all add: fin rej)
  have pr: "ends (\<lambda>s. J (fst s)) (\<lambda>r. \<exists>v. r = Inr v)
      (if createPr cfg
       then createPullRequestP e (branch w) t
              (''Automated implementation by Ralphy (Agent '' @ numToString agentNum @ '')'')
              (baseBranch cfg) (draftPr cfg)
       else Resolved None)"
    using ends_createPullRequestP [of J] by simp
  have p: "ends (\<lambda>s. J (fst s)) Q
      (await (if createPr cfg
       then createPullRequestP e (branch w) t
              (''Automated implementation by Ralphy (Agent '' @ numToString agentNum @ '')'')
              (baseBranch cfg) (draftPr cfg)
       else Resolved None) (\<lambda>prUrl.
        await mc0 (\<lambda>u. await (cleanupWorktreeP e (dir w)) (\<lambda>v. Resolved ?res))))"
    by (rule ends_await [OF pr]) (auto simp: m)
  have touch: "ends (\<lambda>s. J (fst s)) (\<lambda>r. \<exists>v. r = Inr v)
      (if r2 = None then Resolved None else shP e (Touch (dir w @ ''/progress.txt'')))" for r2
    using ends_shP [of J] by simp
  show ?thesis
  proof (rule ends_sh_await)
    fix r2
    show "ends (\<lambda>s. J (fst s)) Q
      (await (if r2 = None then Resolved None
             else shP e (Touch (dir w @ ''/progress.txt''))) (\<lambda>r3.
      await (if createPr cfg
             then createPullRequestP e (branch w) t
                    (''Automated implementation by Ralphy (Agent '' @
                     numToString agentNum @ '')'')
                    (baseBranch cfg) (draftPr cfg)
             else Resolved None) (\<lambda>prUrl.
      await mc0 (\<lambda>u.
      await (cleanupWorktreeP e (dir w)) (\<lambda>v. Resolved ?res)))))"
      by (rule ends_await [OF touch]) (auto simp: p)
  qed
qed

lemma ends_runAgent:
  assumes mc: "ends (\<lambda>s. J (fst s)) (\<lambda>r. r = Inr ()) (markComplete t)"
  shows "ends (\<lambda>s. J (fst s)) (\<lambda>r. r = Inr (failedResult t) \<or> r = Inr (successResult t n))
           (runAgent e cfg d wb markComplete t n)"
  unfolding runAgent_def
proof (rule ends_await [OF ends_createWorktreeP], goal_cases)
  case (1 wt)
  show ?case
  proof (cases wt)
    case None
    then show ?thesis by (simp add: failedResult_def)
  next
    case (Some w)
    with 1 have w: "w = \<lparr>dir = wb @ ''/agent-'' @ numToString n, branch = branchName t n\<rparr>"
      by simp
    show ?thesis
      unfolding Some option.case
      by (rule ends_afterWorktree [OF mc]) (simp_all add: successResult_def w)
  qed
next
  case (2 x)
  then show ?case by simp
qed

lemma ends_runAgent_rejects:
  assumes ok: "\<And>lg c. e lg c \<noteq> None"
    and mc: "ends (\<lambda>s. J (fst s)) (\<lambda>r. r = Inl x) (markComplete t)"
  shows "ends (\<lambda>s. J (fst s)) (\<lambda>r. r = Inl x) (runAgent e cfg d wb markComplete t n)"
  unfolding runAgent_def
proof (rule ends_await [OF ends_createWorktreeP_ok], goal_cases)
  case (1 lg c)
  show ?case by (rule ok)
next
  case (2 wt)
  then obtain w where w: "wt = Some w" by auto
  show ?case
    unfolding w option.case
    by (rule ends_afterWorktree [OF mc]) simp_all
next
  case (3 y)
  then show ?case by simp
qed

lemma ends_fileMarkComplete_writable:
  "ends (\<lambda>s. \<not> readOnly (fst s)) (\<lambda>r. r = Inr ()) (fileMarkComplete mark t)"
  by (auto simp: fileMarkComplete_def)

lemma ends_fileMarkComplete_readOnly:
  "ends (\<lambda>s. readOnly (fst s)) (\<lambda>r. r = Inl WriteFailed) (fileMarkComplete mark t)"
  by (auto simp: fileMarkComplete_def)

section \<open>Properties of runBatches\<close>

lemma slice_take_drop:
  "slice xs (int i) (int i + int n) = take n (drop i xs)"
  by (auto simp: slice_def Let_def min_def nat_diff_distrib' nat_add_distrib)

lemma length_calls: "length (calls i batch) = length batch"
  by (simp add: calls_def)

lemma batchesFrom_step:
  "0 < n \<Longrightarrow> i < length ts \<Longrightarrow>
   batchesFrom n i ts = calls (int i) (take n (drop i ts)) # batchesFrom n (i + n) ts"
  by (subst batchesFrom.simps) simp

lemma batchesFrom_done: "length ts \<le> i \<Longrightarrow> batchesFrom n i ts = []"
  by (subst batchesFrom.simps) simp

lemma runBatch_returns:
  assumes mc: "\<And>t. ends (\<lambda>s. J (fst s)) (\<lambda>r. r = Inr ()) (markComplete t)"
    and j: "J (source x)"
  shows "fst (runBatch sched e cfg d wb markComplete i batch x) = Inr () \<and>
         dispatched (snd (runBatch sched e cfg d wb markComplete i batch x)) =
           dispatched x @ [calls i batch] \<and>
         (\<exists>rs. results (snd (runBatch sched e cfg d wb markComplete i batch x)) = results x @ rs \<and>
               list_all2 resultOf (calls i batch) rs) \<and>
         J (source (snd (runBatch sched e cfg d wb markComplete i batch x)))"
proof -
  let ?cs = "calls i batch"
  let ?ps = "map (\<lambda>c. runAgent e cfg d wb markComplete (fst c) (snd c)) ?cs"
  let ?qs = "map (\<lambda>c (r :: exception + AgentResult).
                    r = Inr (failedResult (fst c)) \<or> r = Inr (successResult (fst c) (snd c))) ?cs"
  obtain r st where r: "promiseAll (sched (shlog x)) ?ps (source x, shlog x) = (r, st)"
    by (cases "promiseAll (sched (shlog x)) ?ps (source x, shlog x)")
  have a: "list_all2 (ends (\<lambda>s. J (fst s))) ?qs ?ps"
    by (simp add: list_all2_map1 list_all2_map2 list_all2_same ends_runAgent [OF mc])
  have j': "(\<lambda>s. J (fst s)) (source x, shlog x)" using j by simp
  note p0 = promiseAll_ends [OF a j', of "sched (shlog x)"]
  from p0 [THEN conjunct1] r have p1: "J (fst st)" by simp
  from p0 [THEN conjunct2] r
  have p2: "case r of Inl y \<Rightarrow> \<exists>q \<in> set ?qs. q (Inl y)
     | Inr as \<Rightarrow> list_all2 (\<lambda>q a. q (Inr a)) ?qs as"
    by (simp only: fst_conv)
  show ?thesis
  proof (cases r)
    case (Inl y)
    with p2 show ?thesis by auto
  next
    case (Inr as)
    with p2 have "list_all2 resultOf ?cs as"
      by (simp add: list_all2_map1 resultOf_def [abs_def])
    with Inr p1 r show ?thesis
      by (simp add: runBatch_def Let_def)
  qed
qed

lemma runBatchesFrom_returns:
  assumes "1 \<le> maxParallel cfg" "maxIterations cfg = 0"
    and mc: "\<And>t. ends (\<lambda>s. J (fst s)) (\<lambda>r. r = Inr ()) (markComplete t)"
  shows "J (source x) \<Longrightarrow>
         \<exists>x' rs. runBatchesFrom sched e cfg d wb markComplete ts (int i) x = Some (Inr (), x') \<and>
              dispatched x' = dispatched x @ batchesFrom (nat (maxParallel cfg)) i ts \<and>
              results x' = results x @ rs \<and>
              list_all2 resultOf (concat (batchesFrom (nat (maxParallel cfg)) i ts)) rs \<and>
              J (source x')"
proof (induction "length ts - i" arbitrary: i x rule: less_induct)
  case less
  let ?n = "nat (maxParallel cfg)"
  have n: "int ?n = maxParallel cfg" "0 < ?n" using assms(1) by auto
  show ?case
  proof (cases "i < length ts")
    case False
    with less.prems show ?thesis
      by (subst runBatchesFrom.simps) (simp add: batchesFrom_done)
  next
    case True
    let ?batch = "take ?n (drop i ts)"
    let ?r = "runBatch sched e cfg d wb markComplete (int i) ?batch x"
    from runBatch_returns [of J markComplete x sched e cfg d wb "int i" ?batch, OF mc less.prems]
    obtain rs1 where r1: "fst ?r = Inr ()" "results (snd ?r) = results x @ rs1"
        "dispatched (snd ?r) = dispatched x @ [calls (int i) ?batch]"
        "list_all2 resultOf (calls (int i) ?batch) rs1" "J (source (snd ?r))"
      by blast
    have "length ts - (i + ?n) < length ts - i" using True n(2) by simp
    from less.hyps [OF this r1(5)] obtain x' rs2 where
      x': "runBatchesFrom sched e cfg d wb markComplete ts (int (i + ?n)) (snd ?r) = Some (Inr (), x')"
          "dispatched x' = dispatched (snd ?r) @ batchesFrom ?n (i + ?n) ts"
          "results x' = results (snd ?r) @ rs2"
          "list_all2 resultOf (concat (batchesFrom ?n (i + ?n) ts)) rs2" "J (source x')"
      by blast
    have sl: "slice ts (int i) (int i + maxParallel cfg) = ?batch"
      using slice_take_drop [of ts i ?n] n(1) by simp
    have "runBatchesFrom sched e cfg d wb markComplete ts (int i) x = Some (Inr (), x')"
      using True x'(1) assms(2) sl n(1) r1(1)
      by (subst runBatchesFrom.simps) (simp add: Let_def)
    moreover have "dispatched x' = dispatched x @ batchesFrom ?n i ts"
      using x'(2) r1(3) by (simp add: batchesFrom_step [OF n(2) True])
    moreover have "results x' = results x @ (rs1 @ rs2)"
      using x'(3) r1(2) by simp
    moreover have "list_all2 resultOf (concat (batchesFrom ?n i ts)) (rs1 @ rs2)"
      using x'(4) r1(4) by (simp add: batchesFrom_step [OF n(2) True] list_all2_appendI)
    ultimately show ?thesis using x'(5) by blast
  qed
qed

lemma runBatch_rejects:
  assumes ok: "\<And>lg c. e lg c \<noteq> None"
    and mc: "\<And>t. ends (\<lambda>s. J (fst s)) (\<lambda>r. r = Inl y) (markComplete t)"
    and j: "J (source x)" and ne: "batch \<noteq> []"
  shows "fst (runBatch sched e cfg d wb markComplete i batch x) = Inl y \<and>
         results (snd (runBatch sched e cfg d wb markComplete i batch x)) = results x \<and>
         dispatched (snd (runBatch sched e cfg d wb markComplete i batch x)) =
           dispatched x @ [calls i batch]"
proof -
  let ?cs = "calls i batch"
  let ?ps = "map (\<lambda>c. runAgent e cfg d wb markComplete (fst c) (snd c)) ?cs"
  let ?qs = "map (\<lambda>c (r :: exception + AgentResult). r = Inl y) ?cs"
  obtain r st where r: "promiseAll (sched (shlog x)) ?ps (source x, shlog x) = (r, st)"
    by (cases "promiseAll (sched (shlog x)) ?ps (source x, shlog x)")
  have a: "list_all2 (ends (\<lambda>s. J (fst s))) ?qs ?ps"
    by (simp add: list_all2_map1 list_all2_map2 list_all2_same ends_runAgent_rejects [OF ok mc])
  have j': "(\<lambda>s. J (fst s)) (source x, shlog x)" using j by simp
  note p0 = promiseAll_ends [OF a j', of "sched (shlog x)"]
  from p0 [THEN conjunct2] r
  have p: "case r of Inl z \<Rightarrow> \<exists>q \<in> set ?qs. q (Inl z)
     | Inr as \<Rightarrow> list_all2 (\<lambda>q a. q (Inr a)) ?qs as"
    by (simp only: fst_conv)
  from ne obtain c cs' where cs: "?cs = c # cs'"
    using length_calls [of i batch] by (cases ?cs) auto
  show ?thesis
  proof (cases r)
    case (Inl z)
    with p have "z = y" by auto
    with Inl r show ?thesis
      by (simp add: runBatch_def Let_def)
  next
    case (Inr as)
    with p have "list_all2 (\<lambda>q a. q (Inr a)) ?qs as" by simp
    then have False unfolding cs by (auto simp: list_all2_Cons1)
    then show ?thesis ..
  qed
qed

lemma runBatches_rejects:
  assumes ok: "\<And>lg c. e lg c \<noteq> None"
    and mc: "\<And>t. ends (\<lambda>s. J (fst s)) (\<lambda>r. r = Inl y) (markComplete t)"
    and j: "J (source x)" and ne: "ts \<noteq> []" and n: "1 \<le> maxParallel cfg"
  shows "\<exists>x'. runBatches sched e cfg d wb markComplete ts x = Some (Inl y, x') \<and>
           results x' = results x \<and>
           dispatched x' = dispatched x @ [calls 0 (take (nat (maxParallel cfg)) ts)]"
proof -
  let ?n = "nat (maxParallel cfg)"
  have sl: "slice ts 0 (maxParallel cfg) = take ?n ts"
    using slice_take_drop [of ts 0 ?n] n by simp
  have b: "take ?n ts \<noteq> []" using ne n by (cases ts) auto
  from runBatch_rejects [of e J y markComplete x "take ?n ts" sched cfg d wb 0, OF ok mc j b]
  show ?thesis
    using ne sl
    by (subst runBatches_def, subst runBatchesFrom.simps) (simp add: Let_def)
qed

lemma length_batchesFrom:
  "0 < n \<Longrightarrow> length (batchesFrom n i ts) = (length ts - i + n - 1) div n"
proof (induction n i ts rule: batchesFrom.induct)
  case (1 n i ts)
  show ?case
  proof (cases "length ts \<le> i")
    case True
    with 1(2) show ?thesis by (simp add: batchesFrom_done)
  next
    case False
    with 1 have ih: "length (batchesFrom n (i + n) ts) = (length ts - (i + n) + n - 1) div n"
      by simp
    define a where "a = length ts - i - 1"
    have e: "length ts - i + n - 1 = a + n" using False by (simp add: a_def)
    have l: "(length ts - i + n - 1) div n = Suc (a div n)"
      unfolding e using 1(2) by (simp add: div_add_self2)
    have r: "(length ts - (i + n) + n - 1) div n = a div n"
    proof (cases "length ts \<le> i + n")
      case True
      with False 1(2) have "a < n" "length ts - (i + n) + n - 1 < n" by (auto simp: a_def)
      then show ?thesis by simp
    next
      case False
      then have "length ts - (i + n) + n - 1 = a" by (simp add: a_def)
      then show ?thesis by simp
    qed
    from False 1(2) have "batchesFrom n i ts = calls (int i) (take n (drop i ts)) # batchesFrom n (i + n) ts"
      by (simp add: batchesFrom_step)
    with ih l r show ?thesis by simp
  qed
qed

lemma nth_batchesFrom:
  "k < length (batchesFrom n i ts) \<Longrightarrow>
   batchesFrom n i ts ! k = calls (int (i + k * n)) (take n (drop (i + k * n) ts))"
proof (induction n i ts arbitrary: k rule: batchesFrom.induct)
  case (1 n i ts)
  from 1(2) have c: "\<not> (n = 0 \<or> length ts \<le> i)"
    by (subst (asm) batchesFrom.simps) (auto split: if_splits)
  then have st: "batchesFrom n i ts = calls (int i) (take n (drop i ts)) # batchesFrom n (i + n) ts"
    by (simp add: batchesFrom_step)
  show ?case
  proof (cases k)
    case 0
    with st show ?thesis by simp
  next
    case (Suc j)
    with 1(2) st have "j < length (batchesFrom n (i + n) ts)" by simp
    from 1(1) [OF c this] have "batchesFrom n (i + n) ts ! j =
        calls (int (i + n + j * n)) (take n (drop (i + n + j * n) ts))" .
    moreover have "i + n + j * n = i + k * n" using Suc by simp
    ultimately show ?thesis using st Suc by simp
  qed
qed

lemma map_fst_calls: "map fst (calls i batch) = batch"
  by (rule nth_equalityI) (simp_all add: calls_def nth_enumerate_eq)

lemma map_snd_calls: "map snd (calls (int i) batch) = map int [i + 1..<i + 1 + length batch]"
  by (rule nth_equalityI) (simp_all add: calls_def nth_enumerate_eq del: upt_Suc)

lemma concat_snd_batchesFrom:
  "i \<le> length ts \<Longrightarrow> 0 < n \<Longrightarrow>
   concat (map (map snd) (batchesFrom n i ts)) = map int [i + 1..<length ts + 1]"
proof (induction n i ts rule: batchesFrom.induct)
  case (1 n i ts)
  show ?case
  proof (cases "length ts \<le> i")
    case True
    with 1(2) show ?thesis by (simp add: batchesFrom_done)
  next
    case False
    then have st: "batchesFrom n i ts = calls (int i) (take n (drop i ts)) # batchesFrom n (i + n) ts"
      using 1(3) by (simp add: batchesFrom_step)
    show ?thesis
    proof (cases "i + n \<le> length ts")
      case True
      with 1 False have ih: "concat (map (map snd) (batchesFrom n (i + n) ts)) = map int [i + n + 1..<length ts + 1]"
        by simp
      have l: "length (take n (drop i ts)) = n" using True by simp
      from True obtain k where k: "length ts = i + n + k" using le_Suc_ex by blast
      have "[i + 1..<(i + 1 + n) + k] = [i + 1..<i + 1 + n] @ [i + 1 + n..<(i + 1 + n) + k]"
        by (rule upt_add_eq_append) simp
      then have "[i + 1..<length ts + 1] = [i + 1..<i + 1 + n] @ [i + n + 1..<length ts + 1]"
        using k by (simp add: add.commute add.left_commute)
      with ih l st show ?thesis
        by (simp add: map_snd_calls)
    next
      case f: False
      then have e: "batchesFrom n (i + n) ts = []" by (simp add: batchesFrom_done)
      have l: "length (take n (drop i ts)) = length ts - i" using f by simp
      from False have "i + 1 + (length ts - i) = length ts + 1" by simp
      with e l st show ?thesis
        by (simp add: map_snd_calls)
    qed
  qed
qed

lemma concat_fst_batchesFrom:
  "0 < n \<Longrightarrow> concat (map (map fst) (batchesFrom n i ts)) = drop i ts"
proof (induction n i ts rule: batchesFrom.induct)
  case (1 n i ts)
  show ?case
  proof (cases "length ts \<le> i")
    case True
    then show ?thesis by (simp add: batchesFrom_done)
  next
    case False
    with 1 have ih: "concat (map (map fst) (batchesFrom n (i + n) ts)) = drop (i + n) ts"
      by simp
    have "take n (drop i ts) @ drop (i + n) ts = drop i ts"
      by (metis add.commute append_take_drop_id drop_drop)
    with ih False 1(2) show ?thesis
      by (simp add: batchesFrom_step map_fst_calls)
  qed
qed

lemma resultOf_task: "list_all2 resultOf cs rs \<Longrightarrow> map task rs = map fst cs"
  by (induction cs rs rule: list_all2_induct)
     (auto simp: resultOf_def failedResult_def successResult_def)

lemma runBatches_dispatch:
  assumes "1 \<le> maxParallel cfg" "ts \<noteq> []" "maxIterations cfg = 0"
    and mc: "\<And>t. ends (\<lambda>s. J (fst s)) (\<lambda>r. r = Inr ()) (markComplete t)"
    and j: "J (source x)"
  shows "\<exists>x' bs rs. runBatches sched e cfg d wb markComplete ts x = Some (Inr (), x') \<and>
           dispatched x' = dispatched x @ bs \<and>
           int (length bs) = (int (length ts) + maxParallel cfg - 1) div maxParallel cfg \<and>
           (\<forall>k < length bs.
              map fst (bs ! k) = take (nat (maxParallel cfg)) (drop (k * nat (maxParallel cfg)) ts) \<and>
              length (bs ! k) \<le> nat (maxParallel cfg)) \<and>
           concat (map (map fst) bs) = ts \<and>
           concat (map (map snd) bs) = map int [1..<length ts + 1] \<and>
           distinct (concat (map (map snd) bs)) \<and>
           set (concat (map (map snd) bs)) = {1..int (length ts)} \<and>
           results x' = results x @ rs \<and>
           list_all2 resultOf (concat bs) rs \<and>
           map task rs = ts"
proof -
  let ?n = "nat (maxParallel cfg)"
  let ?bs = "batchesFrom ?n 0 ts"
  have n: "0 < ?n" "int ?n = maxParallel cfg" using assms(1) by auto
  from runBatchesFrom_returns [of cfg J markComplete x sched e d wb ts 0, OF assms(1,3) mc j]
  obtain x' rs where
    x': "runBatches sched e cfg d wb markComplete ts x = Some (Inr (), x')"
        "dispatched x' = dispatched x @ ?bs" "results x' = results x @ rs"
        "list_all2 resultOf (concat ?bs) rs"
    by (auto simp: runBatches_def)
  have "length ?bs = (length ts + ?n - 1) div ?n"
    using length_batchesFrom [OF n(1), of 0 ts] by simp
  then have "int (length ?bs) = int ((length ts + ?n - 1) div ?n)" by simp
  also have "\<dots> = int (length ts + ?n - 1) div int ?n" by (simp add: zdiv_int)
  also have "int (length ts + ?n - 1) = int (length ts) + maxParallel cfg - 1"
    using n by (simp add: of_nat_diff)
  finally have len: "int (length ?bs) = (int (length ts) + maxParallel cfg - 1) div maxParallel cfg"
    using n(2) by simp
  have nth: "\<forall>k < length ?bs. map fst (?bs ! k) = take ?n (drop (k * ?n) ts) \<and> length (?bs ! k) \<le> ?n"
    by (simp add: nth_batchesFrom map_fst_calls length_calls)
  have f: "concat (map (map fst) ?bs) = ts"
    using concat_fst_batchesFrom [OF n(1), of 0 ts] by simp
  have s: "concat (map (map snd) ?bs) = map int [1..<length ts + 1]"
    using concat_snd_batchesFrom [of 0 ts ?n] n(1) by simp
  have d: "distinct (map int [1..<length ts + 1])"
    by (simp add: distinct_map inj_on_def)
  have st: "set (map int [1..<length ts + 1]) = {1..int (length ts)}"
  proof -
    have "set (map int [1..<length ts + 1]) = int ` {1..length ts}"
      by (auto simp del: upt_Suc)
    also have "\<dots> = {int 1..int (length ts)}" by (rule image_int_atLeastAtMost)
    finally show ?thesis by simp
  qed
  have "map task rs = map fst (concat ?bs)" by (rule resultOf_task [OF x'(4)])
  also have "\<dots> = concat (map (map fst) ?bs)" by (simp add: map_concat)
  finally have tk: "map task rs = ts" using f by simp
  from s d have d': "distinct (concat (map (map snd) ?bs))" by simp
  from s st have st': "set (concat (map (map snd) ?bs)) = {1..int (length ts)}" by simp
  show ?thesis
    apply (rule exI [of _ x'], rule exI [of _ ?bs], rule exI [of _ rs])
    apply (intro conjI)
    apply (rule x'(1))
    apply (rule x'(2))
    apply (rule len)
    apply (rule nth)
    apply (rule f)
    apply (rule s)
    apply (rule d')
    apply (rule st')
    apply (rule x'(3))
    apply (rule x'(4))
    apply (rule tk)
    done
qed

text \<open>
  In particular on a backlog file that can be written, whichever source it belongs to: the
  agents of a batch may undo each other's marks, but the batches, the slots and the results
  are those of the claim.
\<close>

lemma runBatches_dispatch_writable:
  assumes "1 \<le> maxParallel cfg" "ts \<noteq> []" "maxIterations cfg = 0" "\<not> readOnly (source x)"
  shows "\<exists>x' bs rs. runBatches sched e cfg d wb (fileMarkComplete mark) ts x = Some (Inr (), x') \<and>
           dispatched x' = dispatched x @ bs \<and>
           int (length bs) = (int (length ts) + maxParallel cfg - 1) div maxParallel cfg \<and>
           (\<forall>k < length bs.
              map fst (bs ! k) = take (nat (maxParallel cfg)) (drop (k * nat (maxParallel cfg)) ts) \<and>
              length (bs ! k) \<le> nat (maxParallel cfg)) \<and>
           concat (map (map fst) bs) = ts \<and>
           concat (map (map snd) bs) = map int [1..<length ts + 1] \<and>
           distinct (concat (map (map snd) bs)) \<and>
           set (concat (map (map snd) bs)) = {1..int (length ts)} \<and>
           results x' = results x @ rs \<and>
           list_all2 resultOf (concat bs) rs \<and>
           map task rs = ts"
  by (rule runBatches_dispatch [of cfg ts "\<lambda>f. \<not> readOnly f", OF assms(1-3) ends_fileMarkComplete_writable assms(4)])

lemma runBatches_lost_update:
  "map_option (\<lambda>r. (fst r, map task (results (snd r)), stored (source (snd r))))
     (runBatches (\<lambda>lg. [0, 1, 0, 1, 0, 1, 0, 1, 0, 1, 0, 1, 0, 1, 0, 1, 0, 1, 0, 1, 0, 1])
        (\<lambda>lg c. Some [])
        \<lparr>maxIterations = 0, maxParallel = 2, baseBranch = ''main'', createPr = False,
          draftPr = False, prdSource = markdown, prdFile = ''PRD.md'', githubRepo = [],
          githubLabel = []\<rparr>
        ''/repo'' ''/tmp/ralphy'' (fileMarkComplete md_markComplete) [''a'', ''b'']
        \<lparr>results = [],
          source = \<lparr>stored = Some (''- [ ] a'' @ [newline] @ ''- [ ] b''), readOnly = False\<rparr>,
          shlog = [], dispatched = []\<rparr>) =
   Some (Inr (), [''a'', ''b''], Some (''- [ ] a'' @ [newline] @ ''- [x] b''))"
  by code_simp

text \<open>
  Claim C1.  The claim is that \<open>runBatches\<close> dispatches \<open>ceil(M/N)\<close> batches and gives
  out the slot numbers \<open>1..M\<close>.  \<open>runAgent\<close> awaits \<open>markComplete\<close> outside any \<open>try\<close>,
  and \<open>writeFile\<close> does not catch what \<open>Bun.write\<close> throws: on a backlog file that cannot
  be written, the first agent to reach \<open>markComplete\<close> rejects \<open>runAgent\<close>, with it
  \<open>Promise.all\<close> and \<open>runBatches\<close>.  Here three tasks are run two at a time on such a
  checklist, every command succeeding.  Whatever the schedule, \<open>runBatches\<close> is rejected
  after one batch instead of two, records no result and never gives out slot 3; the
  second part is the run in which the two agents take turns.  (Where \<open>markComplete\<close> is
  not rejected the claim holds: lemma \<open>runBatches_dispatch\<close>.)
\<close>

theorem runBatches_rejected_by_write_failure:
  "(\<forall>sched. \<exists>x'.
      runBatches sched (\<lambda>lg c. Some [])
        \<lparr>maxIterations = 0, maxParallel = 2, baseBranch = ''main'', createPr = False,
          draftPr = False, prdSource = markdown, prdFile = ''PRD.md'', githubRepo = [],
          githubLabel = []\<rparr>
        ''/repo'' ''/tmp/ralphy'' (fileMarkComplete md_markComplete) [''a'', ''b'', ''c'']
        \<lparr>results = [],
          source = \<lparr>stored = Some (''- [ ] a'' @ [newline] @ ''- [ ] b'' @ [newline] @ ''- [ ] c''),
                     readOnly = True\<rparr>,
          shlog = [], dispatched = []\<rparr> = Some (Inl WriteFailed, x') \<and>
      results x' = [] \<and> dispatched x' = [[(''a'', 1), (''b'', 2)]]) \<and>
   runBatches (\<lambda>lg. [0, 1, 0, 1, 0, 1, 0, 1, 0, 1, 0, 1, 0, 1, 0, 1, 0, 1]) (\<lambda>lg c. Some [])
     \<lparr>maxIterations = 0, maxParallel = 2, baseBranch = ''main'', createPr = False,
       draftPr = False, prdSource = markdown, prdFile = ''PRD.md'', githubRepo = [],
       githubLabel = []\<rparr>
     ''/repo'' ''/tmp/ralphy'' (fileMarkComplete md_markComplete) [''a'', ''b'', ''c'']
     \<lparr>results = [],
       source = \<lparr>stored = Some (''- [ ] a'' @ [newline] @ ''- [ ] b'' @ [newline] @ ''- [ ] c''),
                  readOnly = True\<rparr>,
       shlog = [], dispatched = []\<rparr> =
   Some (Inl WriteFailed,
         \<lparr>results = [],
           source = \<lparr>stored = Some (''- [ ] a'' @ [newline] @ ''- [ ] b'' @ [newline] @ ''- [ ] c''),
                      readOnly = True\<rparr>,
           shlog =
             [GitWorktreePrune, GitWorktreePrune,
              GitBranchForceDelete ''ralphy/agent-1-a'', GitBranchForceDelete ''ralphy/agent-2-b'',
              GitBranchCreate ''ralphy/agent-1-a'' ''main'', GitBranchCreate ''ralphy/agent-2-b'' ''main'',
              RmRf ''/tmp/ralphy/agent-1'', RmRf ''/tmp/ralphy/agent-2'',
              GitWorktreeAdd ''/tmp/ralphy/agent-1'' ''ralphy/agent-1-a'',
              GitWorktreeAdd ''/tmp/ralphy/agent-2'' ''ralphy/agent-2-b'',
              Cp ''/repo/PRD.md'' ''/tmp/ralphy/agent-1/'', Cp ''/repo/PRD.md'' ''/tmp/ralphy/agent-2/'',
              Touch ''/tmp/ralphy/agent-1/progress.txt'', Touch ''/tmp/ralphy/agent-2/progress.txt''],
           dispatched = [[(''a'', 1), (''b'', 2)]]\<rparr>)"
proof (rule conjI)
  let ?cfg = "\<lparr>maxIterations = 0, maxParallel = 2, baseBranch = ''main'', createPr = False,
          draftPr = False, prdSource = markdown, prdFile = ''PRD.md'', githubRepo = [],
          githubLabel = []\<rparr>"
  let ?x = "\<lparr>results = [],
          source = \<lparr>stored = Some (''- [ ] a'' @ [newline] @ ''- [ ] b'' @ [newline] @ ''- [ ] c''),
                     readOnly = True\<rparr>,
          shlog = [], dispatched = []\<rparr>"
  show "\<forall>sched. \<exists>x'.
      runBatches sched (\<lambda>lg c. Some []) ?cfg
        ''/repo'' ''/tmp/ralphy'' (fileMarkComplete md_markComplete) [''a'', ''b'', ''c''] ?x =
        Some (Inl WriteFailed, x') \<and>
      results x' = [] \<and> dispatched x' = [[(''a'', 1), (''b'', 2)]]"
  proof
    fix sched :: "cmd list \<Rightarrow> nat list"
    have ok: "\<And>lg c. (\<lambda>lg c. Some []) lg c \<noteq> (None :: string option)" by simp
    have mc: "\<And>t. ends (\<lambda>s. readOnly (fst s)) (\<lambda>r. r = Inl WriteFailed)
                  (fileMarkComplete md_markComplete t)"
      by (rule ends_fileMarkComplete_readOnly)
    have j: "readOnly (source ?x)" by simp
    have ne: "[''a'', ''b'', ''c''] \<noteq> []" by simp
    have n: "1 \<le> maxParallel ?cfg" by simp
    have c: "calls 0 (take (nat (maxParallel ?cfg)) [''a'', ''b'', ''c'']) = [(''a'', 1), (''b'', 2)]"
      by code_simp
    from runBatches_rejects [of "\<lambda>lg c. Some []" readOnly WriteFailed
        "fileMarkComplete md_markComplete" ?x "[''a'', ''b'', ''c'']" ?cfg sched "''/repo''" "''/tmp/ralphy''",
        OF ok mc j ne n]
    show "\<exists>x'. runBatches sched (\<lambda>lg c. Some []) ?cfg
        ''/repo'' ''/tmp/ralphy'' (fileMarkComplete md_markComplete) [''a'', ''b'', ''c''] ?x =
        Some (Inl WriteFailed, x') \<and>
      results x' = [] \<and> dispatched x' = [[(''a'', 1), (''b'', 2)]]"
      unfolding c by simp
  qed
next
  show "runBatches (\<lambda>lg. [0, 1, 0, 1, 0, 1, 0, 1, 0, 1, 0, 1, 0, 1, 0, 1, 0, 1]) (\<lambda>lg c. Some [])
     \<lparr>maxIterations = 0, maxParallel = 2, baseBranch = ''main'', createPr = False,
       draftPr = False, prdSource = markdown, prdFile = ''PRD.md'', githubRepo = [],
       githubLabel = []\<rparr>
     ''/repo'' ''/tmp/ralphy'' (fileMarkComplete md_markComplete) [''a'', ''b'', ''c'']
     \<lparr>results = [],
       source = \<lparr>stored = Some (''- [ ] a'' @ [newline] @ ''- [ ] b'' @ [newline] @ ''- [ ] c''),
                  readOnly = True\<rparr>,
       shlog = [], dispatched = []\<rparr> =
   Some (Inl WriteFailed,
         \<lparr>results = [],
           source = \<lparr>stored = Some (''- [ ] a'' @ [newline] @ ''- [ ] b'' @ [newline] @ ''- [ ] c''),
                      readOnly = True\<rparr>,
           shlog =
             [GitWorktreePrune, GitWorktreePrune,
              GitBranchForceDelete ''ralphy/agent-1-a'', GitBranchForceDelete ''ralphy/agent-2-b'',
              GitBranchCreate ''ralphy/agent-1-a'' ''main'', GitBranchCreate ''ralphy/agent-2-b'' ''main'',
              RmRf ''/tmp/ralphy/agent-1'', RmRf ''/tmp/ralphy/agent-2'',
              GitWorktreeAdd ''/tmp/ralphy/agent-1'' ''ralphy/agent-1-a'',
              GitWorktreeAdd ''/tmp/ralphy/agent-2'' ''ralphy/agent-2-b'',
              Cp ''/repo/PRD.md'' ''/tmp/ralphy/agent-1/'', Cp ''/repo/PRD.md'' ''/tmp/ralphy/agent-2/'',
              Touch ''/tmp/ralphy/agent-1/progress.txt'', Touch ''/tmp/ralphy/agent-2/progress.txt''],
           dispatched = [[(''a'', 1), (''b'', 2)]]\<rparr>)"
    by code_simp
qed

section \<open>Slot numbers in a grouped run\<close>

lemma promiseAll_nil_single: "promiseAll [] [p] s = settleAll [p] s"
  by (cases p) simp_all

lemma promiseAll_single: "promiseAll sched [p] s = settleAll [p] s"
proof (induction sched arbitrary: p s)
  case Nil
  show ?case by (rule promiseAll_nil_single)
next
  case (Cons k ks)
  show ?case
  proof (cases p)
    case (Pending u c)
    show ?thesis
    proof (cases k)
      case 0
      with Pending Cons [of "c s" "u s"] show ?thesis
        by (simp add: stepAt_def)
    next
      case (Suc j)
      with Pending Cons [of p s] show ?thesis
        by (simp add: stepAt_def)
    qed
  next
    case (Resolved a)
    with Cons [of p s] show ?thesis by (simp add: stepAt_def)
  next
    case (Rejected x)
    then show ?thesis by simp
  qed
qed

lemma calls_single: "calls i [t] = [(t, i + 1)]"
  by (simp add: calls_def)

lemma runBatch_single:
  "runBatch sched e cfg d wb mc i [t] x = runBatch (\<lambda>lg. []) e cfg d wb mc i [t] x"
  unfolding runBatch_def calls_single list.map Let_def promiseAll_single by (rule refl)

lemma runBatches_single:
  assumes "1 \<le> maxParallel cfg"
  shows "runBatches sched e cfg d wb mc [t] x = runBatches (\<lambda>lg. []) e cfg d wb mc [t] x"
proof -
  have sl: "slice [t] 0 (0 + maxParallel cfg) = [t]"
    using slice_take_drop [of "[t]" 0 "nat (maxParallel cfg)"] assms by simp
  have fin: "runBatchesFrom s e cfg d wb mc [t] (0 + maxParallel cfg) y = Some (Inr (), y)" for s y
    using assms by (subst runBatchesFrom.simps) simp
  have rb: "runBatch sched e cfg d wb mc 0 [t] x = runBatch (\<lambda>lg. []) e cfg d wb mc 0 [t] x"
    by (rule runBatch_single)
  show ?thesis
    unfolding runBatches_def
    apply (subst runBatchesFrom.simps)
    apply (subst (2) runBatchesFrom.simps)
    unfolding sl Let_def rb fin
    apply (rule refl)
    done
qed

text \<open>
  Claim C2.  The claim is that slot numbers are never reused in a run, so that branch
  names never collide.  \<open>runBatches\<close> numbers its slots from 1 at every call, and
  \<open>runWithGroups\<close> calls it once per group.  Here a file with two groups of one task each,
  whose titles have the same slug, is run with every command succeeding: whatever the
  schedule, both tasks run in slot 1, and both get the branch \<open>ralphy/agent-1-add-login\<close>.
\<close>

theorem runWithGroups_reuses_slot:
  "\<forall>sched.
     map_option (\<lambda>r. (fst r, dispatched (snd r), map rbranch (results (snd r))))
       (runWithGroups sched (\<lambda>lg c. Some [])
          \<lparr>maxIterations = 0, maxParallel = 3, baseBranch = ''main'', createPr = False,
            draftPr = False, prdSource = yaml, prdFile = ''tasks.yaml'', githubRepo = [],
            githubLabel = []\<rparr>
          ''/repo'' ''/tmp/ralphy''
          \<lparr>results = [],
            source = \<lparr>stored = Some (''tasks:'' @ [newline] @
                                     ''  - title: Add login'' @ [newline] @
                                     ''    parallel_group: 1'' @ [newline] @
                                     ''  - title: add login!'' @ [newline] @
                                     ''    parallel_group: 2'' @ [newline]),
                       readOnly = False\<rparr>,
            shlog = [], dispatched = []\<rparr>) =
     Some (Inr (), [[(''Add login'', 1)], [(''add login!'', 1)]],
           [''ralphy/agent-1-add-login'', ''ralphy/agent-1-add-login''])"
proof
  fix sched :: "cmd list \<Rightarrow> nat list"
  define e :: env where "e = (\<lambda>lg c. Some [])"
  define cfg where "cfg = \<lparr>maxIterations = 0, maxParallel = 3, baseBranch = ''main'', createPr = False,
            draftPr = False, prdSource = yaml, prdFile = ''tasks.yaml'', githubRepo = [],
            githubLabel = []\<rparr>"
  define d0 where "d0 = ''tasks:'' @ [newline] @
                                     ''  - title: Add login'' @ [newline] @
                                     ''    parallel_group: 1'' @ [newline] @
                                     ''  - title: add login!'' @ [newline] @
                                     ''    parallel_group: 2'' @ [newline]"
  define d1 where "d1 = stringifyYaml \<lparr>tasks =
     [\<lparr>title = ''Add login'', completed = True, parallel_group = Some (Fin 1)\<rparr>,
      \<lparr>title = ''add login!'', completed = False, parallel_group = Some (Fin 2)\<rparr>]\<rparr>"
  define d2 where "d2 = stringifyYaml \<lparr>tasks =
     [\<lparr>title = ''Add login'', completed = True, parallel_group = Some (Fin 1)\<rparr>,
      \<lparr>title = ''add login!'', completed = True, parallel_group = Some (Fin 2)\<rparr>]\<rparr>"
  define lg1 where "lg1 =
     [GitWorktreePrune, GitBranchForceDelete ''ralphy/agent-1-add-login'',
      GitBranchCreate ''ralphy/agent-1-add-login'' ''main'', RmRf ''/tmp/ralphy/agent-1'',
      GitWorktreeAdd ''/tmp/ralphy/agent-1'' ''ralphy/agent-1-add-login'',
      Cp ''/repo/tasks.yaml'' ''/tmp/ralphy/agent-1/'', Touch ''/tmp/ralphy/agent-1/progress.txt'',
      GitStatusPorcelain ''/tmp/ralphy/agent-1'', GitWorktreeRemove ''/tmp/ralphy/agent-1'']"
  define r1 where "r1 = \<lparr>task = ''Add login'', success = True, rbranch = ''ralphy/agent-1-add-login'',
      inputTokens = 0, outputTokens = 0, error = None\<rparr>"
  define r2 where "r2 = \<lparr>task = ''add login!'', success = True, rbranch = ''ralphy/agent-1-add-login'',
      inputTokens = 0, outputTokens = 0, error = None\<rparr>"
  define x0 where "x0 = \<lparr>results = [], source = \<lparr>stored = Some d0, readOnly = False\<rparr>,
      shlog = [], dispatched = []\<rparr>"
  define x1 where "x1 = \<lparr>results = [r1], source = \<lparr>stored = Some d1, readOnly = False\<rparr>,
      shlog = lg1, dispatched = [[(''Add login'', 1)]]\<rparr>"
  define x2 where "x2 = \<lparr>results = [r1, r2], source = \<lparr>stored = Some d2, readOnly = False\<rparr>,
      shlog = lg1 @ lg1, dispatched = [[(''Add login'', 1)], [(''add login!'', 1)]]\<rparr>"
  have g: "getParallelGroups (stored (source x0)) = [Fin 1, Fin 2]"
    unfolding x0_def d0_def by code_simp
  have t1: "getTasksByGroup (Fin 1) (stored (source x0)) = [''Add login'']"
    unfolding x0_def d0_def by code_simp
  have b1: "runBatches (\<lambda>lg. []) e cfg ''/repo'' ''/tmp/ralphy''
              (fileMarkComplete yaml_markComplete) [''Add login''] x0 = Some (Inr (), x1)"
    unfolding x0_def x1_def d0_def d1_def e_def cfg_def lg1_def r1_def by code_simp
  have t2: "getTasksByGroup (Fin 2) (stored (source x1)) = [''add login!'']"
    unfolding x1_def d1_def by code_simp
  have b2: "runBatches (\<lambda>lg. []) e cfg ''/repo'' ''/tmp/ralphy''
              (fileMarkComplete yaml_markComplete) [''add login!''] x1 = Some (Inr (), x2)"
    unfolding x1_def x2_def d1_def d2_def e_def cfg_def lg1_def r1_def r2_def by code_simp
  have n: "1 \<le> maxParallel cfg" by (simp add: cfg_def)
  have main: "runWithGroups sched e cfg ''/repo'' ''/tmp/ralphy'' x0 = Some (Inr (), x2)"
    unfolding runWithGroups_def g
    by (simp add: t1 t2 runBatches_single [OF n, of sched] b1 b2)
  have "map_option (\<lambda>r. (fst r, dispatched (snd r), map rbranch (results (snd r))))
          (runWithGroups sched e cfg ''/repo'' ''/tmp/ralphy'' x0) =
        Some (Inr (), [[(''Add login'', 1)], [(''add login!'', 1)]],
           [''ralphy/agent-1-add-login'', ''ralphy/agent-1-add-login''])"
    unfolding main by (simp add: x2_def r1_def r2_def)
  then show "map_option (\<lambda>r. (fst r, dispatched (snd r), map rbranch (results (snd r))))
       (runWithGroups sched (\<lambda>lg c. Some [])
          \<lparr>maxIterations = 0, maxParallel = 3, baseBranch = ''main'', createPr = False,
            draftPr = False, prdSource = yaml, prdFile = ''tasks.yaml'', githubRepo = [],
            githubLabel = []\<rparr>
          ''/repo'' ''/tmp/ralphy''
          \<lparr>results = [],
            source = \<lparr>stored = Some (''tasks:'' @ [newline] @
                                     ''  - title: Add login'' @ [newline] @
                                     ''    parallel_group: 1'' @ [newline] @
                                     ''  - title: add login!'' @ [newline] @
                                     ''    parallel_group: 2'' @ [newline]),
                       readOnly = False\<rparr>,
            shlog = [], dispatched = []\<rparr>) =
     Some (Inr (), [[(''Add login'', 1)], [(''add login!'', 1)]],
           [''ralphy/agent-1-add-login'', ''ralphy/agent-1-add-login''])"
    unfolding x0_def d0_def e_def cfg_def .
qed

section \<open>Merging after a grouped run\<close>

text \<open>
  Claim C4.  The claim is that \<open>mergeBranch\<close> is not invoked again on a branch whose first
  merge attempt failed.  \<open>handleCompletedBranches\<close> attempts every entry of the results,
  and after a grouped run two entries can carry one branch name (claim C2).  Here the
  grouped run of claim C2 is followed, as in \<open>run\<close>, by \<open>handleCompletedBranches\<close> on its
  results, with \<open>git merge\<close> failing on the branch: the branch is attempted a second time
  after its first attempt has failed, and it is reported twice.  (The rest of the claim
  holds, and all of it where the names are distinct: lemmas
  \<open>handleCompletedBranches_structure\<close> and \<open>handleCompletedBranches_distinct_once\<close>.)
\<close>

theorem handleCompletedBranches_remerges_reused_branch:
  "\<forall>sched.
     map_option
       (\<lambda>r. (fst r,
             fst (handleCompletedBranches
                    \<lparr>maxIterations = 0, maxParallel = 3, baseBranch = ''main'', createPr = False,
                      draftPr = False, prdSource = yaml, prdFile = ''tasks.yaml'', githubRepo = [],
                      githubLabel = []\<rparr>
                    (\<lambda>lg c. if c = GitMergeNoEdit ''ralphy/agent-1-add-login'' then None
                            else if c = GitDiffUnmerged then Some ''README.md'' else Some [])
                    (results (snd r)) (shlog (snd r))),
             filter isMergeCmd
               (drop (length (shlog (snd r)))
                  (snd (handleCompletedBranches
                    \<lparr>maxIterations = 0, maxParallel = 3, baseBranch = ''main'', createPr = False,
                      draftPr = False, prdSource = yaml, prdFile = ''tasks.yaml'', githubRepo = [],
                      githubLabel = []\<rparr>
                    (\<lambda>lg c. if c = GitMergeNoEdit ''ralphy/agent-1-add-login'' then None
                            else if c = GitDiffUnmerged then Some ''README.md'' else Some [])
                    (results (snd r)) (shlog (snd r)))))))
       (runWithGroups sched
          (\<lambda>lg c. if c = GitMergeNoEdit ''ralphy/agent-1-add-login'' then None
                  else if c = GitDiffUnmerged then Some ''README.md'' else Some [])
          \<lparr>maxIterations = 0, maxParallel = 3, baseBranch = ''main'', createPr = False,
            draftPr = False, prdSource = yaml, prdFile = ''tasks.yaml'', githubRepo = [],
            githubLabel = []\<rparr>
          ''/repo'' ''/tmp/ralphy''
          \<lparr>results = [],
            source = \<lparr>stored = Some (''tasks:'' @ [newline] @
                                     ''  - title: Add login'' @ [newline] @
                                     ''    parallel_group: 1'' @ [newline] @
                                     ''  - title: add login!'' @ [newline] @
                                     ''    parallel_group: 2'' @ [newline]),
                       readOnly = False\<rparr>,
            shlog = [], dispatched = []\<rparr>) =
     Some (Inr (),
           [''ralphy/agent-1-add-login'', ''ralphy/agent-1-add-login''],
           [GitCheckout ''main'', GitMergeNoEdit ''ralphy/agent-1-add-login'',
            GitCheckout ''main'', GitMergeNoEdit ''ralphy/agent-1-add-login''])"
proof
  fix sched :: "cmd list \<Rightarrow> nat list"
  define e :: env where "e = (\<lambda>lg c. if c = GitMergeNoEdit ''ralphy/agent-1-add-login'' then None
                  else if c = GitDiffUnmerged then Some ''README.md'' else Some [])"
  define cfg where "cfg = \<lparr>maxIterations = 0, maxParallel = 3, baseBranch = ''main'', createPr = False,
            draftPr = False, prdSource = yaml, prdFile = ''tasks.yaml'', githubRepo = [],
            githubLabel = []\<rparr>"
  define d0 where "d0 = ''tasks:'' @ [newline] @
                                     ''  - title: Add login'' @ [newline] @
                                     ''    parallel_group: 1'' @ [newline] @
                                     ''  - title: add login!'' @ [newline] @
                                     ''    parallel_group: 2'' @ [newline]"
  define d1 where "d1 = stringifyYaml \<lparr>tasks =
     [\<lparr>title = ''Add login'', completed = True, parallel_group = Some (Fin 1)\<rparr>,
      \<lparr>title = ''add login!'', completed = False, parallel_group = Some (Fin 2)\<rparr>]\<rparr>"
  define d2 where "d2 = stringifyYaml \<lparr>tasks =
     [\<lparr>title = ''Add login'', completed = True, parallel_group = Some (Fin 1)\<rparr>,
      \<lparr>title = ''add login!'', completed = True, parallel_group = Some (Fin 2)\<rparr>]\<rparr>"
  define lg1 where "lg1 =
     [GitWorktreePrune, GitBranchForceDelete ''ralphy/agent-1-add-login'',
      GitBranchCreate ''ralphy/agent-1-add-login'' ''main'', RmRf ''/tmp/ralphy/agent-1'',
      GitWorktreeAdd ''/tmp/ralphy/agent-1'' ''ralphy/agent-1-add-login'',
      Cp ''/repo/tasks.yaml'' ''/tmp/ralphy/agent-1/'', Touch ''/tmp/ralphy/agent-1/progress.txt'',
      GitStatusPorcelain ''/tmp/ralphy/agent-1'', GitWorktreeRemove ''/tmp/ralphy/agent-1'']"
  define r1 where "r1 = \<lparr>task = ''Add login'', success = True, rbranch = ''ralphy/agent-1-add-login'',
      inputTokens = 0, outputTokens = 0, error = None\<rparr>"
  define r2 where "r2 = \<lparr>task = ''add login!'', success = True, rbranch = ''ralphy/agent-1-add-login'',
      inputTokens = 0, outputTokens = 0, error = None\<rparr>"
  define x0 where "x0 = \<lparr>results = [], source = \<lparr>stored = Some d0, readOnly = False\<rparr>,
      shlog = [], dispatched = []\<rparr>"
  define x1 where "x1 = \<lparr>results = [r1], source = \<lparr>stored = Some d1, readOnly = False\<rparr>,
      shlog = lg1, dispatched = [[(''Add login'', 1)]]\<rparr>"
  define x2 where "x2 = \<lparr>results = [r1, r2], source = \<lparr>stored = Some d2, readOnly = False\<rparr>,
      shlog = lg1 @ lg1, dispatched = [[(''Add login'', 1)], [(''add login!'', 1)]]\<rparr>"
  have g: "getParallelGroups (stored (source x0)) = [Fin 1, Fin 2]"
    unfolding x0_def d0_def by code_simp
  have t1: "getTasksByGroup (Fin 1) (stored (source x0)) = [''Add login'']"
    unfolding x0_def d0_def by code_simp
  have b1: "runBatches (\<lambda>lg. []) e cfg ''/repo'' ''/tmp/ralphy''
              (fileMarkComplete yaml_markComplete) [''Add login''] x0 = Some (Inr (), x1)"
    unfolding x0_def x1_def d0_def d1_def e_def cfg_def lg1_def r1_def by code_simp
  have t2: "getTasksByGroup (Fin 2) (stored (source x1)) = [''add login!'']"
    unfolding x1_def d1_def by code_simp
  have b2: "runBatches (\<lambda>lg. []) e cfg ''/repo'' ''/tmp/ralphy''
              (fileMarkComplete yaml_markComplete) [''add login!''] x1 = Some (Inr (), x2)"
    unfolding x1_def x2_def d1_def d2_def e_def cfg_def lg1_def r1_def r2_def by code_simp
  have n: "1 \<le> maxParallel cfg" by (simp add: cfg_def)
  have main: "runWithGroups sched e cfg ''/repo'' ''/tmp/ralphy'' x0 = Some (Inr (), x2)"
    unfolding runWithGroups_def g
    by (simp add: t1 t2 runBatches_single [OF n, of sched] b1 b2)
  have h: "handleCompletedBranches cfg e (results x2) (shlog x2) =
     ([''ralphy/agent-1-add-login'', ''ralphy/agent-1-add-login''],
      shlog x2 @
      [GitCheckout ''main'', GitMergeNoEdit ''ralphy/agent-1-add-login'',
       GitCheckout ''main'', GitMergeNoEdit ''ralphy/agent-1-add-login'',
       GitDiffUnmerged, MergePrompt [''README.md''], GitMergeAbort,
       GitDiffUnmerged, MergePrompt [''README.md''], GitMergeAbort])"
    unfolding x2_def e_def cfg_def lg1_def r1_def r2_def by code_simp
  have "map_option
       (\<lambda>r. (fst r, fst (handleCompletedBranches cfg e (results (snd r)) (shlog (snd r))),
             filter isMergeCmd
               (drop (length (shlog (snd r)))
                  (snd (handleCompletedBranches cfg e (results (snd r)) (shlog (snd r)))))))
       (runWithGroups sched e cfg ''/repo'' ''/tmp/ralphy'' x0) =
     Some (Inr (),
           [''ralphy/agent-1-add-login'', ''ralphy/agent-1-add-login''],
           [GitCheckout ''main'', GitMergeNoEdit ''ralphy/agent-1-add-login'',
            GitCheckout ''main'', GitMergeNoEdit ''ralphy/agent-1-add-login''])"
    unfolding main by (simp add: h)
  then show "map_option
       (\<lambda>r. (fst r,
             fst (handleCompletedBranches
                    \<lparr>maxIterations = 0, maxParallel = 3, baseBranch = ''main'', createPr = False,
                      draftPr = False, prdSource = yaml, prdFile = ''tasks.yaml'', githubRepo = [],
                      githubLabel = []\<rparr>
                    (\<lambda>lg c. if c = GitMergeNoEdit ''ralphy/agent-1-add-login'' then None
                            else if c = GitDiffUnmerged then Some ''README.md'' else Some [])
                    (results (snd r)) (shlog (snd r))),
             filter isMergeCmd
               (drop (length (shlog (snd r)))
                  (snd (handleCompletedBranches
                    \<lparr>maxIterations = 0, maxParallel = 3, baseBranch = ''main'', createPr = False,
                      draftPr = False, prdSource = yaml, prdFile = ''tasks.yaml'', githubRepo = [],
                      githubLabel = []\<rparr>
                    (\<lambda>lg c. if c = GitMergeNoEdit ''ralphy/agent-1-add-login'' then None
                            else if c = GitDiffUnmerged then Some ''README.md'' else Some [])
                    (results (snd r)) (shlog (snd r)))))))
       (runWithGroups sched
          (\<lambda>lg c. if c = GitMergeNoEdit ''ralphy/agent-1-add-login'' then None
                  else if c = GitDiffUnmerged then Some ''README.md'' else Some [])
          \<lparr>maxIterations = 0, maxParallel = 3, baseBranch = ''main'', createPr = False,
            draftPr = False, prdSource = yaml, prdFile = ''tasks.yaml'', githubRepo = [],
            githubLabel = []\<rparr>
          ''/repo'' ''/tmp/ralphy''
          \<lparr>results = [],
            source = \<lparr>stored = Some (''tasks:'' @ [newline] @
                                     ''  - title: Add login'' @ [newline] @
                                     ''    parallel_group: 1'' @ [newline] @
                                     ''  - title: add login!'' @ [newline] @
                                     ''    parallel_group: 2'' @ [newline]),
                       readOnly = False\<rparr>,
            shlog = [], dispatched = []\<rparr>) =
     Some (Inr (),
           [''ralphy/agent-1-add-login'', ''ralphy/agent-1-add-login''],
           [GitCheckout ''main'', GitMergeNoEdit ''ralphy/agent-1-add-login'',
            GitCheckout ''main'', GitMergeNoEdit ''ralphy/agent-1-add-login''])"
    unfolding x0_def d0_def e_def cfg_def .
qed

section \<open>Failures of the backing store\<close>

lemma unreadable_file_is_empty:
  "md_getRemainingTasks None = [] \<and> md_getAllTasks None = [] \<and>
   md_countRemaining None = 0 \<and> md_countCompleted None = 0 \<and>
   yaml_getRemainingTasks None = [] \<and> yaml_countRemaining None = 0 \<and>
   yaml_countCompleted None = 0"
  by (simp add: md_getRemainingTasks_def md_getAllTasks_def md_countRemaining_def
      md_countCompleted_def yaml_getRemainingTasks_def yaml_countRemaining_def
      yaml_countCompleted_def parseFile_def readFile_def isPendingLine_def isDoneLine_def
      startsWith_def)

lemma gh_empty_output_is_empty:
  assumes "e lg (Gh (listArgs src ''open'' ''number,title'')) = Some out"
    and "trim out = [] \<or> decodeIssues (trim out) = None"
  shows "fst (gh_getRemainingTasks e decodeIssues src lg) = Inr []"
  using assms
  by (auto simp: gh_getRemainingTasks_def runGhCommand_def sh_def)

text \<open>
  Claim C8.  The claim is that no failure of the backing store leaves the reading methods
  as an error.  It holds for the two file variants (an unreadable file reads as the empty
  string) and for a tracker command that prints nothing or nothing that parses.  When the
  tracker command cannot be started, nothing catches the exception: it leaves
  \<open>getRemainingTasks\<close>, \<open>getAllTasks\<close>, \<open>countRemaining\<close> and \<open>countCompleted\<close>.
\<close>

theorem gh_spawn_failure_propagates:
  "gh_getRemainingTasks (\<lambda>lg c. None) decodeIssues src lg =
     (Inl SpawnFailed, lg @ [Gh (listArgs src ''open'' ''number,title'')]) \<and>
   gh_getAllTasks (\<lambda>lg c. None) decodeIssues src lg =
     (Inl SpawnFailed, lg @ [Gh (listArgs src ''open'' ''number,title'')]) \<and>
   gh_countRemaining (\<lambda>lg c. None) decodeIssues src lg =
     (Inl SpawnFailed, lg @ [Gh (listArgs src ''open'' ''number,title'')]) \<and>
   gh_countCompleted (\<lambda>lg c. None) decodeCount src lg =
     (Inl SpawnFailed, lg @ [Gh (listArgs src ''closed'' ''number'')])"
  by (simp add: gh_getRemainingTasks_def gh_getAllTasks_def gh_countRemaining_def
      gh_countCompleted_def runGhCommand_def sh_def)

section \<open>Properties of the checklist source\<close>

lemma textLines_nonempty: "textLines cs \<noteq> []"
  by (induction cs) (auto split: list.splits)

lemma textLines_append:
  "\<forall>a \<in> set l. \<not> isLineTerminator a \<Longrightarrow>
   textLines (l @ cs) = (l @ hd (textLines cs)) # tl (textLines cs)"
  using textLines_nonempty
  by (induction l) (auto split: list.splits)

lemma textLines_line: "\<forall>a \<in> set l. \<not> isLineTerminator a \<Longrightarrow> textLines l = [l]"
  using textLines_append [of l "[]"] by simp

lemma textLines_line_cons:
  "\<forall>a \<in> set l. \<not> isLineTerminator a \<Longrightarrow> isLineTerminator b \<Longrightarrow>
   textLines (l @ b # cs) = l # textLines cs"
  using textLines_append [of l "b # cs"] by simp

lemma textLines_no_terminator:
  "l \<in> set (textLines cs) \<Longrightarrow> a \<in> set l \<Longrightarrow> \<not> isLineTerminator a"
proof (induction cs arbitrary: l)
  case Nil
  then show ?case by simp
next
  case (Cons c cs)
  show ?case
  proof (cases "isLineTerminator c")
    case True
    with Cons show ?thesis by auto
  next
    case False
    obtain l0 ls where ls: "textLines cs = l0 # ls"
      using textLines_nonempty [of cs] by (cases "textLines cs") auto
    with False Cons.prems have "l = c # l0 \<or> l \<in> set ls" by auto
    then show ?thesis
    proof
      assume "l = c # l0"
      with Cons.prems(2) have "a = c \<or> a \<in> set l0" by auto
      with False Cons.IH [of l0] ls show ?thesis by auto
    next
      assume "l \<in> set ls"
      with Cons.IH [of l] ls Cons.prems(2) show ?thesis by auto
    qed
  qed
qed

lemma findMatch_skip:
  "\<forall>a \<in> set l. \<not> isLineTerminator a \<Longrightarrow> pat \<noteq> [] \<Longrightarrow>
   findMatch pat (l @ r) False = map_option (\<lambda>p. p + length l) (findMatch pat r False)"
  by (induction l) (auto simp: option.map_comp comp_def option.map_ident)

lemma findMatch_not_start:
  "pat \<noteq> [] \<Longrightarrow> \<not> startsWith c pat \<Longrightarrow> findMatch pat c True = findMatch pat c False"
  by (cases c) auto

lemma startsWith_line:
  assumes "\<forall>a \<in> set pat. \<not> isLineTerminator a"
    and "r = [] \<or> isLineTerminator (hd r)"
  shows "startsWith (l @ r) pat \<longleftrightarrow> startsWith l pat"
proof (cases "length pat \<le> length l")
  case True
  then show ?thesis by (simp add: startsWith_def)
next
  case False
  then have nl: "\<not> startsWith l pat"
    by (auto simp: startsWith_def)
  have "\<not> startsWith (l @ r) pat"
  proof
    assume s: "startsWith (l @ r) pat"
    then have e: "take (length pat) (l @ r) = pat" by (simp add: startsWith_def)
    show False
    proof (cases r)
      case Nil
      with e have "length (take (length pat) l) = length pat" by simp
      with False show False by simp
    next
      case (Cons b bs)
      with assms(2) have lt: "isLineTerminator b" by simp
      from False have ll: "length l < length pat" by simp
      from e have "pat ! length l = take (length pat) (l @ r) ! length l" by simp
      also have "\<dots> = (l @ r) ! length l" using ll by (simp only: nth_take)
      also have "\<dots> = b" using Cons by simp
      finally have "b \<in> set pat" using ll nth_mem [of "length l" pat] by simp
      with assms(1) lt show False by blast
    qed
  qed
  with nl show ?thesis by simp
qed

text \<open>The first match and the lines.\<close>

lemma findMatch_lines:
  assumes pat: "pat \<noteq> []" "\<forall>a \<in> set pat. \<not> isLineTerminator a"
    and r: "\<forall>a \<in> set r. \<not> isLineTerminator a"
  shows "(findMatch pat c True = None \<longrightarrow> (\<forall>l \<in> set (textLines c). \<not> startsWith l pat)) \<and>
         (\<forall>p. findMatch pat c True = Some p \<longrightarrow>
            (\<exists>L1 h L2. textLines c = L1 @ [pat @ h] @ L2 \<and>
               (\<forall>l \<in> set L1. \<not> startsWith l pat) \<and>
               textLines (take p c @ r @ drop (p + length pat) c) = L1 @ [r @ h] @ L2))"
proof (induction "length c" arbitrary: c rule: less_induct)
  case less
  define l where "l = takeWhile (\<lambda>a. \<not> isLineTerminator a) c"
  define r' where "r' = dropWhile (\<lambda>a. \<not> isLineTerminator a) c"
  have c: "c = l @ r'" by (simp add: l_def r'_def)
  have l: "\<forall>a \<in> set l. \<not> isLineTerminator a"
    by (auto simp: l_def dest: set_takeWhileD)
  have r': "r' = [] \<or> isLineTerminator (hd r')"
    using hd_dropWhile [of "\<lambda>a. \<not> isLineTerminator a" c] by (auto simp: r'_def)
  have sw: "startsWith c pat \<longleftrightarrow> startsWith l pat"
    unfolding c using startsWith_line [OF pat(2) r'] .
  show ?case
  proof (cases "startsWith l pat")
    case True
    then obtain h where h: "l = pat @ h"
      by (metis append_take_drop_id startsWith_def)
    have fm: "findMatch pat c True = Some 0"
      using True sw pat(1) by (cases c) (auto simp: startsWith_def)
    have hl: "\<forall>a \<in> set h. \<not> isLineTerminator a" using l h by auto
    have tl1: "textLines c = (pat @ h) # tl (textLines r')"
    proof (cases r')
      case Nil
      with c h l show ?thesis by (simp add: textLines_line)
    next
      case (Cons b bs)
      with r' c h l show ?thesis using textLines_line_cons [of l b bs] by simp
    qed
    have "take 0 c @ r @ drop (0 + length pat) c = (r @ h) @ r'"
      using c h by simp
    moreover have "textLines ((r @ h) @ r') = (r @ h) # tl (textLines r')"
    proof (cases r')
      case Nil
      with r hl show ?thesis using textLines_line [of "r @ h"] by auto
    next
      case (Cons b bs)
      with r' r hl show ?thesis using textLines_line_cons [of "r @ h" b bs] by auto
    qed
    ultimately have "textLines (take 0 c @ r @ drop (0 + length pat) c) = [] @ [r @ h] @ tl (textLines r')"
      by simp
    moreover from tl1 have "textLines c = [] @ [pat @ h] @ tl (textLines r')" by simp
    ultimately have "\<exists>L1 h L2. textLines c = L1 @ [pat @ h] @ L2 \<and>
               (\<forall>l \<in> set L1. \<not> startsWith l pat) \<and>
               textLines (take 0 c @ r @ drop (0 + length pat) c) = L1 @ [r @ h] @ L2"
      by (intro exI [of _ "[]"] exI [of _ h] exI [of _ "tl (textLines r')"]) simp
    with fm show ?thesis by simp
  next
    case False
    with sw have nsw: "\<not> startsWith c pat" by simp
    have fm0: "findMatch pat c True = map_option (\<lambda>p. p + length l) (findMatch pat r' False)"
      using findMatch_not_start [OF pat(1) nsw] findMatch_skip [OF l pat(1), of r'] c by simp
    show ?thesis
    proof (cases r')
      case Nil
      with fm0 have "findMatch pat c True = None" by simp
      moreover from Nil c l have "textLines c = [l]" by (simp add: textLines_line)
      ultimately show ?thesis using False by simp
    next
      case (Cons b c')
      with r' have b: "isLineTerminator b" by simp
      from Cons c have len: "length c' < length c" by simp
      note ih = less [OF len]
      have fm: "findMatch pat c True = map_option (\<lambda>p. p + length l + 1) (findMatch pat c' True)"
        using fm0 Cons b by (simp add: option.map_comp comp_def)
      have tc: "textLines c = l # textLines c'"
        using c Cons textLines_line_cons [OF l b, of c'] by simp
      show ?thesis
      proof (intro conjI allI impI)
        assume "findMatch pat c True = None"
        with fm have "findMatch pat c' True = None" by simp
        with ih have "\<forall>l \<in> set (textLines c'). \<not> startsWith l pat" by blast
        with tc False show "\<forall>l \<in> set (textLines c). \<not> startsWith l pat" by simp
      next
        fix p assume "findMatch pat c True = Some p"
        with fm obtain p' where p': "findMatch pat c' True = Some p'" "p = p' + length l + 1"
          by (cases "findMatch pat c' True") auto
        with ih obtain L1 h L2 where
          d: "textLines c' = L1 @ [pat @ h] @ L2" "\<forall>l \<in> set L1. \<not> startsWith l pat"
             "textLines (take p' c' @ r @ drop (p' + length pat) c') = L1 @ [r @ h] @ L2"
          by blast
        have "take p c @ r @ drop (p + length pat) c =
              l @ b # (take p' c' @ r @ drop (p' + length pat) c')"
          using c Cons p'(2) by simp
        then have "textLines (take p c @ r @ drop (p + length pat) c) = l # L1 @ [r @ h] @ L2"
          using textLines_line_cons [OF l b] d(3) by simp
        moreover have "textLines c = (l # L1) @ [pat @ h] @ L2" using tc d(1) by simp
        moreover have "\<forall>x \<in> set (l # L1). \<not> startsWith x pat" using d(2) False by simp
        ultimately show "\<exists>L1 h L2. textLines c = L1 @ [pat @ h] @ L2 \<and>
               (\<forall>l \<in> set L1. \<not> startsWith l pat) \<and>
               textLines (take p c @ r @ drop (p + length pat) c) = L1 @ [r @ h] @ L2"
          by (intro exI [of _ "l # L1"] exI [of _ h] exI [of _ L2]) simp
      qed
    qed
  qed
qed

lemma getSubstitution_no_dollar:
  "CHR ''$'' \<notin> set s \<Longrightarrow> getSubstitution m b a s = s"
  by (induction m b a s rule: getSubstitution.induct) auto

lemma startsWith_append2:
  "startsWith l p1 \<Longrightarrow> startsWith (drop (length p1) l) p2 \<Longrightarrow> startsWith l (p1 @ p2)"
  by (simp add: startsWith_def take_add)

lemma find_append_skip:
  "\<forall>x \<in> set xs. \<not> Q x \<Longrightarrow> find Q (xs @ ys) = find Q ys"
  by (induction xs) auto

lemma count_list_append: "count_list (xs @ ys) x = count_list xs x + count_list ys x"
  by (induction xs) auto

lemma marker_no_terminator:
  "\<forall>a \<in> set ''- [ ] ''. \<not> isLineTerminator a" "\<forall>a \<in> set ''- [x] ''. \<not> isLineTerminator a"
  by (simp_all add: isLineTerminator_def code_def)

lemma isPendingLine_iff: "isPendingLine l \<longleftrightarrow> (\<exists>t. t \<noteq> [] \<and> l = ''- [ ] '' @ t)"
proof
  assume a: "isPendingLine l"
  then have "take (length ''- [ ] '') l = ''- [ ] ''"
    by (simp only: isPendingLine_def startsWith_def)
  then have "l = ''- [ ] '' @ drop (length ''- [ ] '') l"
    by (metis append_take_drop_id)
  moreover from a have "drop (length ''- [ ] '') l \<noteq> []"
    by (simp add: isPendingLine_def)
  ultimately show "\<exists>t. t \<noteq> [] \<and> l = ''- [ ] '' @ t" by blast
next
  assume "\<exists>t. t \<noteq> [] \<and> l = ''- [ ] '' @ t"
  then show "isPendingLine l" by (auto simp: isPendingLine_def startsWith_def)
qed

text \<open>
  Claim C3, as amended.  The claim holds for no document in which the title stands on two
  pending lines: \<open>markComplete\<close> rewrites the first match only.  When the title \<open>t\<close>
  stands on exactly one pending line, is the first pending text that starts with \<open>t\<close>
  and contains no \<open>$\<close>, then after \<open>markComplete(t)\<close> the remaining tasks do not
  contain \<open>t\<close>, \<open>countCompleted\<close> is one greater and \<open>countRemaining\<close> one less.
\<close>

theorem md_markComplete_unique:
  assumes once: "count_list (md_getRemainingTasks f) t = 1"
    and nodollar: "CHR ''$'' \<notin> set t"
    and first: "find (\<lambda>x. startsWith x t) (md_getRemainingTasks f) = Some t"
  shows "t \<notin> set (md_getRemainingTasks (md_markComplete t f)) \<and>
         md_countCompleted (md_markComplete t f) = md_countCompleted f + 1 \<and>
         md_countRemaining (md_markComplete t f) + 1 = md_countRemaining f"
proof -
  define c where "c = readFile f"
  define pat where "pat = ''- [ ] '' @ t"
  define r where "r = ''- [x] '' @ t"
  define P where "P = (\<lambda>L. map (drop 6) (filter isPendingLine L))"
  have rem: "md_getRemainingTasks f = P (textLines c)"
    by (simp add: md_getRemainingTasks_def P_def c_def)
  from once have "t \<in> set (md_getRemainingTasks f)"
    by (metis count_list_0_iff zero_neq_one)
  then obtain l0 where l0: "l0 \<in> set (textLines c)" "isPendingLine l0" "drop 6 l0 = t"
    by (auto simp: rem P_def)
  from l0(2) obtain t' where "t' \<noteq> []" "l0 = ''- [ ] '' @ t'"
    using isPendingLine_iff by blast
  with l0(3) have l0eq: "l0 = pat" and tne: "t \<noteq> []"
    by (auto simp: pat_def)
  have tnt: "\<forall>a \<in> set t. \<not> isLineTerminator a"
    using textLines_no_terminator [OF l0(1)] l0eq by (auto simp: pat_def)
  have patne: "pat \<noteq> []" by (simp add: pat_def)
  have patnt: "\<forall>a \<in> set pat. \<not> isLineTerminator a"
    using tnt marker_no_terminator(1) by (auto simp: pat_def)
  have rnt: "\<forall>a \<in> set r. \<not> isLineTerminator a"
    using tnt marker_no_terminator(2) by (auto simp: r_def)
  note fl = findMatch_lines [OF patne patnt rnt, of c]
  have "findMatch pat c True \<noteq> None"
  proof
    assume "findMatch pat c True = None"
    with fl have "\<not> startsWith l0 pat" using l0(1) by blast
    with l0eq show False by (simp add: startsWith_def)
  qed
  then obtain p where p: "findMatch pat c True = Some p" by auto
  with fl obtain L1 h L2 where
    d: "textLines c = L1 @ [pat @ h] @ L2" "\<forall>l \<in> set L1. \<not> startsWith l pat"
       "textLines (take p c @ r @ drop (p + length pat) c) = L1 @ [r @ h] @ L2"
    by blast
  have "CHR ''$'' \<notin> set r" using nodollar by (auto simp: r_def)
  then have rf: "replaceFirst c pat r = take p c @ r @ drop (p + length pat) c"
    using p by (simp add: replaceFirst_def getSubstitution_no_dollar)
  have mc: "readFile (md_markComplete t f) = take p c @ r @ drop (p + length pat) c"
    using rf by (simp add: md_markComplete_def writeFile_def readFile_def c_def pat_def r_def)
  have newlines: "textLines (readFile (md_markComplete t f)) = L1 @ [r @ h] @ L2"
    using mc d(3) by simp
  have pend_pat: "isPendingLine (pat @ h)"
    using tne by (simp add: isPendingLine_def startsWith_def pat_def)
  have npend_r: "\<not> isPendingLine (r @ h)"
    by (simp add: isPendingLine_def startsWith_def r_def)
  have oldP: "P (textLines c) = P L1 @ [t @ h] @ P L2"
    using d(1) pend_pat by (simp add: P_def pat_def)
  have newP: "md_getRemainingTasks (md_markComplete t f) = P L1 @ P L2"
    using newlines npend_r by (simp add: md_getRemainingTasks_def P_def)
  have noprefix: "\<forall>x \<in> set (P L1). \<not> startsWith x t"
  proof
    fix x assume "x \<in> set (P L1)"
    then obtain l where l: "l \<in> set L1" "isPendingLine l" "x = drop 6 l"
      by (auto simp: P_def)
    show "\<not> startsWith x t"
    proof
      assume sx: "startsWith x t"
      from l(2) obtain t' where t': "l = ''- [ ] '' @ t'"
        using isPendingLine_iff by blast
      with l(3) have "x = t'" by simp
      with sx t' have "startsWith l (''- [ ] '' @ t)"
        by (simp add: startsWith_def)
      with d(2) l(1) show False by (simp add: pat_def)
    qed
  qed
  have "find (\<lambda>x. startsWith x t) (P L1 @ [t @ h] @ P L2) = Some (t @ h)"
    using find_append_skip [OF noprefix] by (simp add: startsWith_def)
  with first rem oldP have h: "h = []" by simp
  from once rem oldP h have "count_list (P L1) t + count_list (P L2) t = 0"
    by (simp add: count_list_append)
  then have "t \<notin> set (P L1)" "t \<notin> set (P L2)"
    by (simp_all add: count_list_0_iff)
  with newP have a: "t \<notin> set (md_getRemainingTasks (md_markComplete t f))" by simp
  have b: "md_countCompleted (md_markComplete t f) = md_countCompleted f + 1"
    using newlines d(1)
    by (simp add: md_countCompleted_def c_def [symmetric] startsWith_def pat_def r_def)
  have e: "md_countRemaining (md_markComplete t f) + 1 = md_countRemaining f"
    using newlines d(1)
    by (simp add: md_countRemaining_def c_def [symmetric] startsWith_def pat_def r_def)
  from a b e show ?thesis by blast
qed

theorem md_markComplete_unique_witness:
  "count_list (md_getRemainingTasks (Some (''- [ ] one'' @ [newline] @ ''- [x] zero'' @ [newline] @
      ''- [ ] two'' @ [newline] @ ''- [ ] three''))) ''two'' = 1 \<and>
   CHR ''$'' \<notin> set ''two'' \<and>
   find (\<lambda>x. startsWith x ''two'') (md_getRemainingTasks (Some (''- [ ] one'' @ [newline] @
      ''- [x] zero'' @ [newline] @ ''- [ ] two'' @ [newline] @ ''- [ ] three''))) = Some ''two'' \<and>
   ''two'' \<notin> set (md_getRemainingTasks (md_markComplete ''two'' (Some (''- [ ] one'' @ [newline] @
      ''- [x] zero'' @ [newline] @ ''- [ ] two'' @ [newline] @ ''- [ ] three'')))) \<and>
   md_countCompleted (md_markComplete ''two'' (Some (''- [ ] one'' @ [newline] @
      ''- [x] zero'' @ [newline] @ ''- [ ] two'' @ [newline] @ ''- [ ] three''))) = 2"
proof -
  let ?f = "Some (''- [ ] one'' @ [newline] @ ''- [x] zero'' @ [newline] @
      ''- [ ] two'' @ [newline] @ ''- [ ] three'')"
  have h1: "count_list (md_getRemainingTasks ?f) ''two'' = 1" by code_simp
  have h2: "CHR ''$'' \<notin> set ''two''" by simp
  have h3: "find (\<lambda>x. startsWith x ''two'') (md_getRemainingTasks ?f) = Some ''two''" by code_simp
  have c0: "md_countCompleted ?f = 1" by code_simp
  from md_markComplete_unique [OF h1 h2 h3] c0
  have "''two'' \<notin> set (md_getRemainingTasks (md_markComplete ''two'' ?f))"
       "md_countCompleted (md_markComplete ''two'' ?f) = 2"
    by simp_all
  with h1 h2 h3 show ?thesis by blast
qed

text \<open>
  The claim as stated fails on a document with the title on two pending lines: the second
  one remains.
\<close>

theorem md_markComplete_duplicate_counterexample:
  "''foo'' \<in> set (md_getRemainingTasks (md_markComplete ''foo''
      (Some (''- [ ] foo'' @ [newline] @ ''- [ ] foo''))))"
  by code_simp

text \<open>
  The pattern is not anchored at the end of the line, so a pending line that merely starts
  with the title is rewritten when it comes first.
\<close>

lemma md_markComplete_prefix_example:
  "md_markComplete ''foo'' (Some (''- [ ] foobar'' @ [newline] @ ''- [ ] foo'')) =
     Some (''- [x] foobar'' @ [newline] @ ''- [ ] foo'')"
  by code_simp

section \<open>Printing and reading numbers\<close>

lemma code_digit: "0 \<le> d \<Longrightarrow> d < 10 \<Longrightarrow> int (code (char_of (48 + d))) = 48 + d"
  for d :: int
proof -
  assume a: "0 \<le> d" "d < 10"
  have "int (code (char_of (48 + d))) = (of_char (char_of (48 + d)) :: int)"
    unfolding code_def by (rule of_nat_of_char)
  also have "\<dots> = (48 + d) mod 256" by simp
  also have "\<dots> = 48 + d" using a by simp
  finally show ?thesis .
qed

lemma isDigit_digit: "0 \<le> d \<Longrightarrow> d < 10 \<Longrightarrow> isDigit (char_of (48 + d))" for d :: int
  using code_digit [of d] by (auto simp: isDigit_def)

lemma not_white_digit: "0 \<le> d \<Longrightarrow> d < 10 \<Longrightarrow> \<not> isWhiteSpace (char_of (48 + d))" for d :: int
  using code_digit [of d] by (auto simp: isWhiteSpace_def)

lemma digit_not_sign:
  "0 \<le> d \<Longrightarrow> d < 10 \<Longrightarrow> char_of (48 + d) \<noteq> CHR ''-'' \<and> char_of (48 + d) \<noteq> CHR ''+'' \<and>
     char_of (48 + d) \<noteq> CHR 0x0A" for d :: int
  using code_digit [of d] by (auto simp: code_def)

lemma digitsValue_snoc: "digitsValue (ds @ [c]) = 10 * digitsValue ds + (int (code c) - 48)"
  by (simp add: digitsValue_def)

lemma showInt_props:
  "0 \<le> z \<Longrightarrow> digitsValue (showInt z) = z \<and> list_all isDigit (showInt z) \<and> showInt z \<noteq> []"
proof (induction z rule: showInt.induct)
  case (1 z)
  show ?case
  proof (cases "z < 10")
    case True
    with 1(2) show ?thesis
      by (subst showInt.simps, subst showInt.simps, subst showInt.simps)
         (simp add: digitsValue_def code_digit isDigit_digit)
  next
    case False
    with 1 have ih: "digitsValue (showInt (z div 10)) = z div 10"
      "list_all isDigit (showInt (z div 10))" by simp_all
    have m: "0 \<le> z mod 10" "z mod 10 < 10" by simp_all
    have e: "showInt z = showInt (z div 10) @ [char_of (48 + z mod 10)]"
      using False by (subst showInt.simps) simp
    show ?thesis
      unfolding e using ih m by (simp add: digitsValue_snoc code_digit isDigit_digit)
  qed
qed

lemma length_showInt: "0 < k \<Longrightarrow> z < 10 ^ k \<Longrightarrow> length (showInt z) \<le> k"
proof (induction z arbitrary: k rule: showInt.induct)
  case (1 z)
  show ?case
  proof (cases "z < 10")
    case True
    with 1(2) show ?thesis by (subst showInt.simps) simp
  next
    case False
    with 1(3) have "k \<noteq> 1" by auto
    with 1(2) obtain j where j: "k = Suc j" "0 < j" by (cases k) auto
    have "10 * (z div 10) \<le> z" by simp
    moreover from 1(3) j have "z < 10 * 10 ^ j" by simp
    ultimately have "z div 10 < 10 ^ j" by linarith
    with 1(1) [OF False j(2)] have "length (showInt (z div 10)) \<le> j" by simp
    with False j show ?thesis by (subst showInt.simps) simp
  qed
qed

lemma bitlen_pos: "0 < z \<Longrightarrow> bitlen z = Suc (bitlen (z div 2))"
  by (subst bitlen.simps) simp

lemma bitlen_nonpos: "z \<le> 0 \<Longrightarrow> bitlen z = 0"
  by (subst bitlen.simps) simp

lemma bitlen_bounds: "0 < z \<Longrightarrow> 2 ^ (bitlen z - 1) \<le> z \<and> z < 2 ^ bitlen z"
proof (induction z rule: bitlen.induct)
  case (1 z)
  show ?case
  proof (cases "z div 2 \<le> 0")
    case True
    with 1(2) have "z = 1" by linarith
    then show ?thesis by (simp add: bitlen_pos bitlen_nonpos)
  next
    case False
    then have p: "0 < z div 2" by simp
    with 1 have ih: "2 ^ (bitlen (z div 2) - 1) \<le> z div 2" "z div 2 < 2 ^ bitlen (z div 2)"
      by simp_all
    from p have bp: "0 < bitlen (z div 2)" by (simp add: bitlen_pos)
    have "(2::int) ^ bitlen (z div 2) = 2 * 2 ^ (bitlen (z div 2) - 1)"
      using bp by (cases "bitlen (z div 2)") simp_all
    with ih have "2 ^ bitlen (z div 2) \<le> z" "z < 2 * 2 ^ bitlen (z div 2)" by linarith+
    with 1(2) show ?thesis by (simp add: bitlen_pos)
  qed
qed

lemma bitlen_unique:
  assumes "0 < n" "2 ^ (n - 1) \<le> z" "z < 2 ^ n"
  shows "bitlen z = n"
proof -
  have zp: "0 < z" using assms(2) by (smt (verit) zero_less_power)
  note b = bitlen_bounds [OF zp]
  have bp: "0 < bitlen z" using zp by (simp add: bitlen_pos)
  from b assms(3) have "(2::int) ^ (bitlen z - 1) < 2 ^ n" by linarith
  then have 1: "bitlen z - 1 < n" by (simp add: power_strict_increasing_iff)
  from b assms(2) have "(2::int) ^ (n - 1) < 2 ^ bitlen z" by linarith
  then have 2: "n - 1 < bitlen z" by (simp add: power_strict_increasing_iff)
  from 1 2 assms(1) bp show ?thesis by linarith
qed

lemma roundInt_exact:
  assumes "2 ^ 52 \<le> q" "q \<le> 2 ^ 53" "0 < e"
  shows "roundInt (q * 2 ^ e) = q * 2 ^ e"
proof (cases "q = 2 ^ 53")
  case True
  have b: "bitlen ((2::int) ^ (53 + e)) = 54 + e"
    by (rule bitlen_unique) simp_all
  have ge: "\<not> (2::int) ^ (53 + e) < 2 ^ 53"
    unfolding not_less by (rule power_increasing) simp_all
  have d: "(2::int) ^ (53 + e) div 2 ^ (Suc e) = 2 ^ 52"
    by (simp add: power_add)
  have m: "(2::int) ^ (53 + e) mod 2 ^ (Suc e) = 0"
    by (simp add: power_add)
  have "roundInt (2 ^ (53 + e)) = 2 ^ (53 + e)"
    unfolding roundInt_def Let_def b using ge d m by (simp add: power_add)
  with True show ?thesis by (simp add: power_add)
next
  case False
  with assms(2) have q: "q < 2 ^ 53" by simp
  have "(2::int) ^ (53 + e - 1) = 2 ^ 52 * 2 ^ e" by (simp add: power_add)
  with assms(1) have lo: "2 ^ (53 + e - 1) \<le> q * 2 ^ e" by simp
  have "q * 2 ^ e < 2 ^ 53 * 2 ^ e" using q by simp
  then have hi: "q * 2 ^ e < 2 ^ (53 + e)" by (simp add: power_add)
  have b: "bitlen (q * 2 ^ e) = 53 + e"
    by (rule bitlen_unique [OF _ lo hi]) simp
  have "(2::int) ^ 53 \<le> 2 ^ 52 * 2 ^ e"
    using assms(3) by (cases e) simp_all
  also have "\<dots> \<le> q * 2 ^ e" using assms(1) by simp
  finally have ge: "\<not> q * 2 ^ e < 2 ^ 53" by simp
  have h: "(0::int) < 2 ^ (e - 1)" by simp
  show ?thesis
    unfolding roundInt_def Let_def b using ge h by simp
qed

lemma roundInt_idem: "roundInt (roundInt z) = roundInt z"
proof (cases "z < 2 ^ 53")
  case True
  then show ?thesis by (simp add: roundInt_def)
next
  case False
  then have zp: "0 < z" by (smt (verit) zero_less_power)
  define e where "e = bitlen z - 53"
  define q where "q = z div 2 ^ e"
  note b = bitlen_bounds [OF zp]
  from False b have "(2::int) ^ 53 < 2 ^ bitlen z" by linarith
  then have bl: "53 < bitlen z"
    using power_less_imp_less_exp [of "2::int" 53 "bitlen z"] by simp
  then have e: "0 < e" "bitlen z = 53 + e" "bitlen z - 1 = 52 + e" by (simp_all add: e_def)
  define b :: int where "b = 2 ^ e"
  have bpos: "0 < b" by (simp add: b_def)
  have q1: "2 ^ 52 \<le> q"
  proof -
    from b e have "2 ^ 52 * b \<le> z" by (simp add: power_add b_def)
    from zdiv_mono1 [OF this bpos] bpos show ?thesis
      by (simp add: q_def b_def)
  qed
  have q2: "q < 2 ^ 53"
  proof -
    from b e have 1: "z < 2 ^ 53 * b" by (simp add: power_add b_def)
    have "z = q * b + z mod b" unfolding q_def b_def by (rule div_mult_mod_eq [symmetric])
    moreover have "0 \<le> z mod b" using bpos by simp
    ultimately have "q * b \<le> z" by linarith
    with 1 have "q * b < 2 ^ 53 * b" by linarith
    with bpos show ?thesis by (simp add: mult_less_cancel_right_disj)
  qed
  have "roundInt z = q * 2 ^ e \<or> roundInt z = (q + 1) * 2 ^ e"
    using False by (auto simp: roundInt_def Let_def e_def q_def)
  then show ?thesis
  proof
    assume r: "roundInt z = q * 2 ^ e"
    from roundInt_exact [of q e] q1 q2 e(1) r show ?thesis by simp
  next
    assume r: "roundInt z = (q + 1) * 2 ^ e"
    from roundInt_exact [of "q + 1" e] q1 q2 e(1) r show ?thesis by simp
  qed
qed

lemma roundInt_nonneg: "0 \<le> z \<Longrightarrow> 0 \<le> roundInt z"
  by (auto simp: roundInt_def Let_def pos_imp_zdiv_nonneg_iff)

lemma roundInt_0: "roundInt 0 = 0"
  by (simp add: roundInt_def)

lemma roundInt_e21: "roundInt (10 ^ 21) = 10 ^ 21"
  by code_simp

lemma closest_in: "vs \<noteq> [] \<Longrightarrow> closest x vs \<in> set vs \<or> closest x vs = x"
  by (auto simp: closest_def split: list.splits)

lemma candidates_props:
  assumes "0 \<le> x" "x < 10 ^ 21" "v \<in> set (candidates x k)"
  shows "roundInt v = x \<and> 0 \<le> v \<and> v < 10 ^ 21"
proof -
  define m where "m = length (showInt x) - k"
  define p :: int where "p = 10 ^ m"
  define lo where "lo = x div p"
  have pp: "0 < p" by (simp add: p_def)
  from length_showInt [of 21 x] assms(2) have "m \<le> 21" by (simp add: m_def)
  then have e: "(10::int) ^ 21 = 10 ^ (21 - m) * p"
    by (simp add: p_def power_add [symmetric])
  from assms(3) have v: "roundInt v = x" "v = lo * p \<or> v = (lo + 1) * p"
    by (auto simp: candidates_def Let_def m_def p_def lo_def split: if_splits)
  have lo0: "0 \<le> lo" using assms(1) pp by (simp add: lo_def pos_imp_zdiv_nonneg_iff)
  have dm: "x = lo * p + x mod p" unfolding lo_def by (rule div_mult_mod_eq [symmetric])
  have md: "0 \<le> x mod p" using pp by simp
  from dm md have le: "lo * p \<le> x" by linarith
  with assms(2) e have "lo * p < 10 ^ (21 - m) * p" by linarith
  with pp have "lo < 10 ^ (21 - m)" by (simp add: mult_less_cancel_right_disj)
  then have "lo + 1 \<le> 10 ^ (21 - m)" by simp
  with pp have "(lo + 1) * p \<le> 10 ^ (21 - m) * p" by (simp add: mult_right_mono)
  with e have up: "(lo + 1) * p \<le> 10 ^ 21" by simp
  have v0: "0 \<le> v" using v(2) lo0 pp by auto
  have "v \<noteq> 10 ^ 21"
  proof
    assume "v = 10 ^ 21"
    with v(1) roundInt_e21 have "x = 10 ^ 21" by simp
    with assms(2) show False by simp
  qed
  with v(2) le up assms(2) have "v < 10 ^ 21" by auto
  with v(1) v0 show ?thesis by simp
qed

lemma shortestFrom_props:
  assumes "0 \<le> x" "x < 10 ^ 21" "roundInt x = x"
  shows "roundInt (shortestFrom x k fuel) = x \<and> 0 \<le> shortestFrom x k fuel \<and>
         shortestFrom x k fuel < 10 ^ 21"
proof (induction fuel arbitrary: k)
  case 0
  with assms show ?case by simp
next
  case (Suc fuel)
  show ?case
  proof (cases "candidates x k = []")
    case True
    with Suc show ?thesis by simp
  next
    case False
    from closest_in [OF False, of x] candidates_props [OF assms(1,2)] assms
    have "roundInt (closest x (candidates x k)) = x \<and> 0 \<le> closest x (candidates x k) \<and>
          closest x (candidates x k) < 10 ^ 21" by metis
    with False show ?thesis by simp
  qed
qed

lemma shortest_props:
  assumes "0 \<le> x" "x < 10 ^ 21" "roundInt x = x"
  shows "roundInt (shortest x) = x \<and> 0 \<le> shortest x \<and> shortest x < 10 ^ 21"
  using shortestFrom_props [OF assms] assms by (simp add: shortest_def)

lemma posToString_full:
  assumes "0 \<le> x" "x < 10 ^ 21" "roundInt x = x"
  shows "posToString x = showInt (shortest x)"
proof -
  from shortest_props [OF assms] have "shortest x < 10 ^ 21" by simp
  with length_showInt [of 21 "shortest x"] have "length (showInt (shortest x)) \<le> 21" by simp
  then show ?thesis by (simp add: posToString_def Let_def)
qed

lemma toNumber_shortest:
  assumes "0 \<le> x" "x < 10 ^ 21" "roundInt x = x"
  shows "toNumber (shortest x) = Fin x" and "toNumber (- shortest x) = Fin (- x)"
proof -
  note s = shortest_props [OF assms]
  have big: "x < 2 ^ 1024" using assms(2) by simp
  from s have a: "\<bar>shortest x\<bar> = shortest x" by simp
  show "toNumber (shortest x) = Fin x"
    using s big by (simp add: toNumber_def Let_def a)
  show "toNumber (- shortest x) = Fin (- x)"
  proof (cases "shortest x = 0")
    case True
    with s roundInt_0 have "x = 0" by simp
    with True show ?thesis by (simp add: toNumber_def Let_def roundInt_0)
  next
    case False
    with s have "- shortest x < 0" by simp
    with s big show ?thesis by (simp add: toNumber_def Let_def a)
  qed
qed

lemma takeWhile_all: "list_all P xs \<Longrightarrow> takeWhile P xs = xs"
  by (induction xs) auto

lemma hd_showInt: "0 \<le> z \<Longrightarrow> \<exists>d ds. showInt z = d # ds \<and> isDigit d"
  using showInt_props [of z] by (cases "showInt z") auto

lemma isDigit_facts:
  "isDigit c \<Longrightarrow> \<not> isWhiteSpace c \<and> c \<noteq> CHR ''-'' \<and> c \<noteq> CHR ''+'' \<and> c \<noteq> CHR 0x0A"
  by (auto simp: isDigit_def isWhiteSpace_def code_def)

lemma parseInt_numToString:
  assumes "roundInt \<bar>z\<bar> = \<bar>z\<bar>" "\<bar>z\<bar> < 10 ^ 21"
  shows "parseInt (numToString z) = Some (Fin z)"
proof (cases "z < 0")
  case True
  with assms have x: "0 \<le> - z" "- z < 10 ^ 21" "roundInt (- z) = - z" by simp_all
  note p = posToString_full [OF x]
  from shortest_props [OF x] have v: "0 \<le> shortest (- z)" by simp
  from showInt_props [OF v] have sp: "digitsValue (showInt (shortest (- z))) = shortest (- z)"
    "list_all isDigit (showInt (shortest (- z)))" "showInt (shortest (- z)) \<noteq> []" by simp_all
  have "\<not> isWhiteSpace (CHR ''-'')" by (simp add: isWhiteSpace_def code_def)
  then show ?thesis
    using True p sp toNumber_shortest(2) [OF x]
    by (simp add: parseInt_def numToString_def startsWith_def takeWhile_all Let_def)
next
  case False
  with assms have x: "0 \<le> z" "z < 10 ^ 21" "roundInt z = z" by simp_all
  note p = posToString_full [OF x]
  from shortest_props [OF x] have v: "0 \<le> shortest z" by simp
  from showInt_props [OF v] have sp: "digitsValue (showInt (shortest z)) = shortest z"
    "list_all isDigit (showInt (shortest z))" by simp_all
  from hd_showInt [OF v] obtain d ds where d: "showInt (shortest z) = d # ds" "isDigit d" by auto
  with isDigit_facts [of d] have nd: "\<not> isWhiteSpace d" "d \<noteq> CHR ''-''" "d \<noteq> CHR ''+''" by simp_all
  have dw: "dropWhile isWhiteSpace (showInt (shortest z)) = showInt (shortest z)" using d nd by simp
  have ns: "\<not> startsWith (showInt (shortest z)) ''-''" "\<not> startsWith (showInt (shortest z)) ''+''"
    using d nd by (simp_all add: startsWith_def)
  have ne: "showInt (shortest z) \<noteq> []" using d by simp
  show ?thesis
    using False p sp dw ns ne toNumber_shortest(1) [OF x]
    by (simp add: parseInt_def numToString_def Let_def takeWhile_all)
qed

section \<open>Round trip of the structured document\<close>

lemma trim_lead: "isWhiteSpace a \<Longrightarrow> trim (a # s) = trim s"
  by (simp add: trim_def)

lemma dropWhile_hd: "s \<noteq> [] \<Longrightarrow> \<not> P (hd s) \<Longrightarrow> dropWhile P s = s"
  by (cases s) auto

lemma trim_id: "s \<noteq> [] \<Longrightarrow> \<not> isWhiteSpace (hd s) \<Longrightarrow> \<not> isWhiteSpace (last s) \<Longrightarrow> trim s = s"
  by (simp add: trim_def dropWhile_hd hd_rev)

lemma set_trim: "set (trim s) \<subseteq> set s"
  by (auto simp: trim_def dest!: set_dropWhileD)

lemma white_facts:
  "isWhiteSpace (CHR '' '')" "\<not> isWhiteSpace dquote" "\<not> isWhiteSpace (CHR ''-'')"
  "\<not> isWhiteSpace (CHR ''t'')" "\<not> isWhiteSpace (CHR ''c'')" "\<not> isWhiteSpace (CHR ''p'')"
  "\<not> isWhiteSpace (CHR ''e'')"
  by (simp_all add: isWhiteSpace_def code_def dquote_def)

lemma trim_title_line:
  "trim (''  - title: '' @ [dquote] @ T @ [dquote]) = ''- title: '' @ [dquote] @ T @ [dquote]"
  by (simp add: trim_lead trim_id white_facts)

lemma trim_title_rest:
  "trim (''title: '' @ [dquote] @ T @ [dquote]) = ''title: '' @ [dquote] @ T @ [dquote]"
  by (simp add: trim_id white_facts)

lemma parseValue_quoted: "parseValue ('' '' @ [dquote] @ T @ [dquote]) = T"
proof -
  have "trim ('' '' @ [dquote] @ T @ [dquote]) = dquote # T @ [dquote]"
    by (simp add: trim_lead trim_id white_facts)
  then show ?thesis
    by (simp add: parseValue_def startsWith_def endsWith_def)
qed

lemma parseLine_title:
  assumes "inTasks st"
  shows "parseLine st (titleLine T) =
         st\<lparr>result := pushCurrent st,
            currentTask := Some \<lparr>title = T, completed = False, parallel_group = None\<rparr>\<rparr>"
proof -
  have d2: "drop 2 (''- title: '' @ [dquote] @ T @ [dquote]) = ''title: '' @ [dquote] @ T @ [dquote]"
    by simp
  have d6: "drop 6 (''title: '' @ [dquote] @ T @ [dquote]) = '' '' @ [dquote] @ T @ [dquote]"
    by simp
  have s1: "\<not> startsWith (''- title: '' @ [dquote] @ T @ [dquote]) ''#''"
    "startsWith (''- title: '' @ [dquote] @ T @ [dquote]) ''- ''"
    "startsWith (''title: '' @ [dquote] @ T @ [dquote]) ''title:''"
    "''- title: '' @ [dquote] @ T @ [dquote] \<noteq> ''tasks:''"
    "''- title: '' @ [dquote] @ T @ [dquote] \<noteq> []"
    by (simp_all add: startsWith_def)
  show ?thesis
    unfolding parseLine_def titleLine_def trim_title_line Let_def d2 trim_title_rest d6 parseValue_quoted
    using assms s1 by simp
qed

lemma trim_concrete:
  "trim ''    completed: true'' = ''completed: true''"
  "trim ''    completed: false'' = ''completed: false''"
  "trim ''completed'' = ''completed''"
  "trim '' true'' = ''true''"
  "trim '' false'' = ''false''"
  "trim ''parallel_group'' = ''parallel_group''"
  by code_simp+

lemma setProperty_completed:
  "setProperty ct ''completed: true'' = ct\<lparr>completed := True\<rparr>"
  "setProperty ct ''completed: false'' = ct\<lparr>completed := False\<rparr>"
  by (simp_all add: setProperty_def trim_concrete)

lemma parseLine_completed:
  assumes "inTasks st" "currentTask st = Some ct"
  shows "parseLine st (completedLine b) =
         st\<lparr>currentTask := Some (ct\<lparr>completed := b\<rparr>)\<rparr>"
  using assms
  by (cases b)
     (simp_all add: parseLine_def completedLine_def trim_concrete startsWith_def
        setProperty_completed)

lemma numToString_chars:
  assumes "roundInt \<bar>z\<bar> = \<bar>z\<bar>" "\<bar>z\<bar> < 10 ^ 21"
  shows "numToString z \<noteq> [] \<and> (\<forall>c \<in> set (numToString z). isDigit c \<or> c = CHR ''-'') \<and>
         isDigit (last (numToString z))"
proof (cases "z < 0")
  case True
  with assms have x: "0 \<le> - z" "- z < 10 ^ 21" "roundInt (- z) = - z" by simp_all
  note p = posToString_full [OF x]
  from shortest_props [OF x] have v: "0 \<le> shortest (- z)" by simp
  from showInt_props [OF v] have "list_all isDigit (showInt (shortest (- z)))"
    "showInt (shortest (- z)) \<noteq> []" by simp_all
  with True p show ?thesis by (auto simp: numToString_def list_all_iff)
next
  case False
  with assms have x: "0 \<le> z" "z < 10 ^ 21" "roundInt z = z" by simp_all
  note p = posToString_full [OF x]
  from shortest_props [OF x] have v: "0 \<le> shortest z" by simp
  from showInt_props [OF v] have "list_all isDigit (showInt (shortest z))"
    "showInt (shortest z) \<noteq> []" by simp_all
  with False p show ?thesis by (auto simp: numToString_def list_all_iff)
qed

lemma not_white_num:
  "isDigit c \<or> c = CHR ''-'' \<Longrightarrow> \<not> isWhiteSpace c \<and> c \<noteq> newline"
  by (auto simp: isDigit_def isWhiteSpace_def code_def newline_def)

lemma trim_group_line:
  assumes "roundInt \<bar>z\<bar> = \<bar>z\<bar>" "\<bar>z\<bar> < 10 ^ 21"
  shows "trim (''    parallel_group: '' @ numToString z) = ''parallel_group: '' @ numToString z"
    and "trim ('' '' @ numToString z) = numToString z"
proof -
  from numToString_chars [OF assms] have n: "numToString z \<noteq> []"
    "\<not> isWhiteSpace (hd (numToString z))" "\<not> isWhiteSpace (last (numToString z))"
    using not_white_num by (auto simp: hd_in_set)
  show "trim (''    parallel_group: '' @ numToString z) = ''parallel_group: '' @ numToString z"
    using n by (simp add: trim_lead trim_id white_facts)
  show "trim ('' '' @ numToString z) = numToString z"
    using n by (simp add: trim_lead trim_id white_facts)
qed

lemma setProperty_group:
  assumes "roundInt \<bar>z\<bar> = \<bar>z\<bar>" "\<bar>z\<bar> < 10 ^ 21"
  shows "setProperty ct (''parallel_group: '' @ numToString z) = ct\<lparr>parallel_group := Some (Fin z)\<rparr>"
  using trim_group_line(2) [OF assms] parseInt_numToString [OF assms]
  by (simp add: setProperty_def trim_concrete)

lemma parseLine_group:
  assumes "inTasks st" "currentTask st = Some ct" "roundInt \<bar>z\<bar> = \<bar>z\<bar>" "\<bar>z\<bar> < 10 ^ 21"
  shows "parseLine st (groupLine (Fin z)) =
         st\<lparr>currentTask := Some (ct\<lparr>parallel_group := Some (Fin z)\<rparr>)\<rparr>"
proof -
  define tr where "tr = ''parallel_group: '' @ numToString z"
  have t1: "trim (groupLine (Fin z)) = tr"
    unfolding groupLine_def tr_def using trim_group_line(1) [OF assms(3,4)]
    by (simp add: numberToString_def)
  have s1: "\<not> startsWith tr ''#''" "\<not> startsWith tr ''- ''" "tr \<noteq> ''tasks:''" "tr \<noteq> []"
    "CHR '':'' \<in> set tr"
    unfolding tr_def by (simp_all add: startsWith_def)
  have sp: "setProperty ct tr = ct\<lparr>parallel_group := Some (Fin z)\<rparr>"
    unfolding tr_def using setProperty_group [OF assms(3,4)] by simp
  show ?thesis
    unfolding parseLine_def Let_def t1 using assms(1,2) s1 sp by simp
qed

lemma parse_task:
  assumes "wfTask t" "inTasks st"
  shows "foldl parseLine st (taskLines t @ rest) =
         foldl parseLine \<lparr>result = pushCurrent st, currentTask = Some t, inTasks = True\<rparr> rest"
proof -
  let ?ct = "\<lparr>title = title t, completed = False, parallel_group = None\<rparr>"
  let ?s1 = "st\<lparr>result := pushCurrent st, currentTask := Some ?ct\<rparr>"
  have i1: "inTasks ?s1" "currentTask ?s1 = Some ?ct" using assms(2) by simp_all
  let ?s2 = "?s1\<lparr>currentTask := Some (?ct\<lparr>completed := completed t\<rparr>)\<rparr>"
  have i2: "inTasks ?s2" "currentTask ?s2 = Some (?ct\<lparr>completed := completed t\<rparr>)"
    using assms(2) by simp_all
  show ?thesis
  proof (cases "parallel_group t")
    case None
    then have "?s2 = \<lparr>result = pushCurrent st, currentTask = Some t, inTasks = True\<rparr>"
      using assms(2) by simp
    with None show ?thesis
      using parseLine_title [OF assms(2), of "title t"] parseLine_completed [OF i1, of "completed t"]
      by (simp add: taskLines_def)
  next
    case (Some g)
    with assms(1) obtain z where z: "g = Fin z" "roundInt \<bar>z\<bar> = \<bar>z\<bar>" "\<bar>z\<bar> < 10 ^ 21"
      by (auto simp: wfTask_def isDouble_def printsInFull_def split: jsnumber.splits)
    have "?s2\<lparr>currentTask := Some (?ct\<lparr>completed := completed t, parallel_group := Some (Fin z)\<rparr>)\<rparr> =
          \<lparr>result = pushCurrent st, currentTask = Some t, inTasks = True\<rparr>"
      using assms(2) Some z(1) by simp
    with Some z show ?thesis
      using parseLine_title [OF assms(2), of "title t"] parseLine_completed [OF i1, of "completed t"]
        parseLine_group [OF i2 z(2,3)]
      by (simp add: taskLines_def)
  qed
qed

lemma split_nonempty: "split sep cs \<noteq> []"
  by (induction cs) (auto split: list.splits)

lemma split_append_line: "sep \<notin> set l \<Longrightarrow> split sep (l @ sep # rest) = l # split sep rest"
  by (induction l) auto

lemma split_no_sep: "l \<in> set (split sep cs) \<Longrightarrow> sep \<notin> set l"
proof (induction cs arbitrary: l)
  case Nil
  then show ?case by simp
next
  case (Cons c cs)
  show ?case
  proof (cases "c = sep")
    case True
    with Cons show ?thesis by auto
  next
    case False
    obtain l0 ls where ls: "split sep cs = l0 # ls"
      using split_nonempty [of sep cs] by (cases "split sep cs") auto
    with False Cons.prems have "l = c # l0 \<or> l \<in> set ls" by auto
    with False Cons.IH [of l0] Cons.IH [of l] ls show ?thesis by auto
  qed
qed

lemma split_lines:
  "\<forall>l \<in> set ls. newline \<notin> set l \<Longrightarrow>
   split newline (concat (map (\<lambda>l. l @ [newline]) ls) @ rest) = ls @ split newline rest"
  by (induction ls) (simp_all add: split_append_line)

lemma stringifyTask_lines:
  "stringifyTask t = concat (map (\<lambda>l. l @ [newline]) (taskLines t))"
  by (simp add: stringifyTask_def taskLines_def titleLine_def completedLine_def groupLine_def
      split: option.splits)

lemma concat_stringify:
  "concat (map stringifyTask ts) = concat (map (\<lambda>l. l @ [newline]) (concat (map taskLines ts)))"
  by (induction ts) (simp_all add: stringifyTask_lines)

lemma taskLines_no_newline:
  assumes "wfTask t" "l \<in> set (taskLines t)"
  shows "newline \<notin> set l"
proof -
  have a: "newline \<notin> set (titleLine (title t))"
    using assms(1) by (auto simp: wfTask_def titleLine_def newline_def dquote_def)
  have b: "newline \<notin> set (completedLine (completed t))"
    by (auto simp: completedLine_def newline_def)
  have c: "newline \<notin> set (groupLine g)" if "parallel_group t = Some g" for g
  proof -
    from that assms(1) obtain z where z: "g = Fin z" "roundInt \<bar>z\<bar> = \<bar>z\<bar>" "\<bar>z\<bar> < 10 ^ 21"
      by (auto simp: wfTask_def isDouble_def printsInFull_def split: jsnumber.splits)
    from numToString_chars [OF z(2,3)] not_white_num have "newline \<notin> set (numToString z)" by blast
    with z(1) show ?thesis by (auto simp: groupLine_def numberToString_def newline_def)
  qed
  from assms(2) a b c show ?thesis
    by (auto simp: taskLines_def split: option.splits)
qed

lemma split_stringifyYaml:
  assumes "\<forall>t \<in> set ts. wfTask t"
  shows "split newline (stringifyYaml \<lparr>tasks = ts\<rparr>) = ''tasks:'' # concat (map taskLines ts) @ [[]]"
proof -
  have n: "\<forall>l \<in> set (''tasks:'' # concat (map taskLines ts)). newline \<notin> set l"
    using assms taskLines_no_newline by (auto simp: newline_def)
  have "stringifyYaml \<lparr>tasks = ts\<rparr> =
        concat (map (\<lambda>l. l @ [newline]) (''tasks:'' # concat (map taskLines ts))) @ []"
    by (simp add: stringifyYaml_def concat_stringify)
  then show ?thesis
    using split_lines [OF n, of "[]"] by simp
qed

lemma parseLine_empty: "parseLine st [] = st"
  by (simp add: parseLine_def trim_def)

lemma parseLine_tasks: "parseLine st ''tasks:'' = st\<lparr>inTasks := True\<rparr>"
proof -
  have "trim ''tasks:'' = ''tasks:''" by code_simp
  then show ?thesis by (simp add: parseLine_def startsWith_def)
qed

lemma parse_tasks:
  assumes "\<forall>t \<in> set ts. wfTask t" "inTasks st"
  shows "pushCurrent (foldl parseLine st (concat (map taskLines ts) @ [[]])) = pushCurrent st @ ts"
  using assms
proof (induction ts arbitrary: st)
  case Nil
  then show ?case by (simp add: parseLine_empty)
next
  case (Cons t ts)
  let ?s1 = "\<lparr>result = pushCurrent st, currentTask = Some t, inTasks = True\<rparr>"
  from Cons.prems have w: "wfTask t" by simp
  have "foldl parseLine st (concat (map taskLines (t # ts)) @ [[]]) =
        foldl parseLine ?s1 (concat (map taskLines ts) @ [[]])"
    using parse_task [OF w Cons.prems(2), of "concat (map taskLines ts) @ [[]]"] by simp
  moreover have "pushCurrent (foldl parseLine ?s1 (concat (map taskLines ts) @ [[]])) =
        pushCurrent ?s1 @ ts"
    using Cons.IH [of ?s1] Cons.prems(1) by simp
  moreover have "pushCurrent ?s1 = pushCurrent st @ [t]"
    using w by (simp add: pushCurrent_def wfTask_def)
  ultimately show ?case by simp
qed

lemma parse_stringify:
  assumes "\<forall>t \<in> set ts. wfTask t"
  shows "parseSimpleYaml (stringifyYaml \<lparr>tasks = ts\<rparr>) = \<lparr>tasks = ts\<rparr>"
proof -
  let ?s0 = "\<lparr>result = [], currentTask = None, inTasks = False\<rparr>"
  have "foldl parseLine ?s0 (split newline (stringifyYaml \<lparr>tasks = ts\<rparr>)) =
        foldl parseLine (?s0\<lparr>inTasks := True\<rparr>) (concat (map taskLines ts) @ [[]])"
    by (simp add: split_stringifyYaml [OF assms] parseLine_tasks)
  moreover have "pushCurrent (foldl parseLine (?s0\<lparr>inTasks := True\<rparr>) (concat (map taskLines ts) @ [[]])) =
        pushCurrent (?s0\<lparr>inTasks := True\<rparr>) @ ts"
    by (rule parse_tasks [OF assms]) simp
  ultimately show ?thesis
    by (simp add: parseSimpleYaml_def pushCurrent_def)
qed

lemma set_parseValue: "set (parseValue v) \<subseteq> set v"
proof -
  have "set (butlast (tl (trim v))) \<subseteq> set (trim v)"
    by (meson in_set_butlastD in_set_tl subsetI)
  with set_trim [of v] show ?thesis by (auto simp: parseValue_def Let_def)
qed

lemma setProperty_title: "newline \<notin> set tr \<Longrightarrow> newline \<notin> set (title ct) \<Longrightarrow>
  newline \<notin> set (title (setProperty ct tr))"
proof -
  assume a: "newline \<notin> set tr" "newline \<notin> set (title ct)"
  let ?v = "trim (drop (length (takeWhile (\<lambda>c. c \<noteq> CHR '':'') tr) + 1) tr)"
  have "set ?v \<subseteq> set tr" using set_trim set_drop_subset by (metis subset_trans)
  with set_parseValue [of ?v] a(1) have "newline \<notin> set (parseValue ?v)" by blast
  with a(2) show ?thesis by (simp add: setProperty_def Let_def)
qed

lemma pushCurrent_ok:
  "titlesOk st \<Longrightarrow> \<forall>t \<in> set (pushCurrent st). title t \<noteq> [] \<and> newline \<notin> set (title t)"
  by (auto simp: titlesOk_def pushCurrent_def split: option.splits if_splits)

lemma parseLine_titlesOk:
  assumes "newline \<notin> set line" "titlesOk st"
  shows "titlesOk (parseLine st line)"
proof -
  let ?tr = "trim line"
  let ?rest = "trim (drop 2 ?tr)"
  have tr: "newline \<notin> set ?tr" using assms(1) set_trim by blast
  have "set ?rest \<subseteq> set ?tr" using set_trim set_drop_subset by (metis subset_trans)
  then have "set (drop 6 ?rest) \<subseteq> set ?tr" using set_drop_subset by (metis subset_trans)
  with set_parseValue [of "drop 6 ?rest"] tr
  have pv: "newline \<notin> set (parseValue (drop 6 ?rest))" by blast
  have sp: "\<And>ct. newline \<notin> set (title ct) \<Longrightarrow> newline \<notin> set (title (setProperty ct ?tr))"
    using setProperty_title [OF tr] .
  show ?thesis
    using assms(2) pv sp pushCurrent_ok [OF assms(2)]
    by (auto simp: parseLine_def Let_def titlesOk_def)
qed

lemma foldl_titlesOk:
  "\<forall>l \<in> set ls. newline \<notin> set l \<Longrightarrow> titlesOk st \<Longrightarrow> titlesOk (foldl parseLine st ls)"
  by (induction ls arbitrary: st) (simp_all add: parseLine_titlesOk)

lemma parsed_titles:
  "t \<in> set (tasks (parseSimpleYaml doc)) \<Longrightarrow> title t \<noteq> [] \<and> newline \<notin> set (title t)"
proof -
  let ?s0 = "\<lparr>result = [], currentTask = None, inTasks = False\<rparr>"
  have "titlesOk ?s0" by (simp add: titlesOk_def)
  moreover have "\<forall>l \<in> set (split newline doc). newline \<notin> set l"
    using split_no_sep by blast
  ultimately have "titlesOk (foldl parseLine ?s0 (split newline doc))"
    using foldl_titlesOk by blast
  from pushCurrent_ok [OF this] show "t \<in> set (tasks (parseSimpleYaml doc)) \<Longrightarrow>
      title t \<noteq> [] \<and> newline \<notin> set (title t)"
    by (simp add: parseSimpleYaml_def)
qed

lemma toNumber_double: "isDouble (toNumber z)"
proof -
  have "0 \<le> roundInt \<bar>z\<bar>" by (rule roundInt_nonneg) simp
  then have "\<bar>- roundInt \<bar>z\<bar>\<bar> = roundInt \<bar>z\<bar>" "\<bar>roundInt \<bar>z\<bar>\<bar> = roundInt \<bar>z\<bar>" by simp_all
  then show ?thesis
    by (simp add: isDouble_def toNumber_def Let_def roundInt_idem)
qed

lemma parseInt_double: "parseInt s = Some n \<Longrightarrow> isDouble n"
  using toNumber_double by (auto simp: parseInt_def Let_def split: if_splits)

lemma setProperty_double:
  assumes "\<forall>g. parallel_group ct = Some g \<longrightarrow> isDouble g"
    and "parallel_group (setProperty ct tr) = Some g"
  shows "isDouble g"
proof -
  have z: "isDouble (Fin 0)" by (simp add: isDouble_def roundInt_0)
  from assms z parseInt_double show ?thesis
    by (auto simp: setProperty_def Let_def split: if_splits option.splits)
qed

lemma pushCurrent_groups:
  "groupsOk st \<Longrightarrow> \<forall>t \<in> set (pushCurrent st). \<forall>g. parallel_group t = Some g \<longrightarrow> isDouble g"
  by (auto simp: groupsOk_def pushCurrent_def split: option.splits if_splits)

lemma parseLine_groupsOk:
  assumes "groupsOk st"
  shows "groupsOk (parseLine st line)"
proof -
  have sp: "\<And>ct g. \<forall>g. parallel_group ct = Some g \<longrightarrow> isDouble g \<Longrightarrow>
      parallel_group (setProperty ct (trim line)) = Some g \<Longrightarrow> isDouble g"
    using setProperty_double by blast
  show ?thesis
    using assms sp pushCurrent_groups [OF assms]
    by (auto simp: parseLine_def Let_def groupsOk_def)
qed

lemma foldl_groupsOk: "groupsOk st \<Longrightarrow> groupsOk (foldl parseLine st ls)"
  by (induction ls arbitrary: st) (simp_all add: parseLine_groupsOk)

lemma parsed_groups:
  "t \<in> set (tasks (parseSimpleYaml doc)) \<Longrightarrow> parallel_group t = Some g \<Longrightarrow> isDouble g"
proof -
  let ?s0 = "\<lparr>result = [], currentTask = None, inTasks = False\<rparr>"
  have "groupsOk ?s0" by (simp add: groupsOk_def)
  then have "groupsOk (foldl parseLine ?s0 (split newline doc))" by (rule foldl_groupsOk)
  from pushCurrent_groups [OF this]
  show "t \<in> set (tasks (parseSimpleYaml doc)) \<Longrightarrow> parallel_group t = Some g \<Longrightarrow> isDouble g"
    by (simp add: parseSimpleYaml_def)
qed

lemma wf_parsed:
  assumes "\<forall>t \<in> set (tasks (parseSimpleYaml doc)). \<forall>g. parallel_group t = Some g \<longrightarrow> printsInFull g"
  shows "\<forall>t \<in> set (tasks (parseSimpleYaml doc)). wfTask t"
  using assms parsed_titles [of _ doc] parsed_groups [of _ doc]
  by (auto simp: wfTask_def split: option.splits)

lemma YamlTaskFile_eta: "\<lparr>tasks = tasks d\<rparr> = d" for d :: YamlTaskFile
  by simp

text \<open>
  Claim C5, as amended.  For every document whose parsed \<open>parallel_group\<close> values are
  finite and below \<open>10^21\<close> in absolute value, parsing what \<open>stringifyYaml\<close> writes for
  the parsed document gives the parsed document again: the same tasks with the same
  \<open>title\<close>, \<open>completed\<close> and \<open>parallel_group\<close>.
\<close>

theorem yaml_roundtrip:
  assumes "\<forall>t \<in> set (tasks (parseSimpleYaml doc)). \<forall>g. parallel_group t = Some g \<longrightarrow> printsInFull g"
  shows "parseSimpleYaml (stringifyYaml (parseSimpleYaml doc)) = parseSimpleYaml doc"
  using parse_stringify [OF wf_parsed [OF assms]] by (simp only: YamlTaskFile_eta)

theorem yaml_roundtrip_witness:
  "tasks (parseSimpleYaml (''# backlog'' @ [newline] @ ''tasks:'' @ [newline] @
      ''  - title: A'' @ [newline] @ ''    owner: me'' @ [newline] @ ''    parallel_group: 123456789012345678901'' @ [newline] @
      ''  - title: B'' @ [newline] @ ''    completed: true'' @ [newline] @ ''    parallel_group: -2'')) =
     [\<lparr>title = ''A'', completed = False, parallel_group = Some (Fin 123456789012345683968)\<rparr>,
      \<lparr>title = ''B'', completed = True, parallel_group = Some (Fin (- 2))\<rparr>] \<and>
   parseSimpleYaml (stringifyYaml (parseSimpleYaml (''# backlog'' @ [newline] @ ''tasks:'' @ [newline] @
      ''  - title: A'' @ [newline] @ ''    owner: me'' @ [newline] @ ''    parallel_group: 123456789012345678901'' @ [newline] @
      ''  - title: B'' @ [newline] @ ''    completed: true'' @ [newline] @ ''    parallel_group: -2''))) =
     \<lparr>tasks = [\<lparr>title = ''A'', completed = False, parallel_group = Some (Fin 123456789012345683968)\<rparr>,
                \<lparr>title = ''B'', completed = True, parallel_group = Some (Fin (- 2))\<rparr>]\<rparr>"
proof -
  let ?doc = "''# backlog'' @ [newline] @ ''tasks:'' @ [newline] @
      ''  - title: A'' @ [newline] @ ''    owner: me'' @ [newline] @ ''    parallel_group: 123456789012345678901'' @ [newline] @
      ''  - title: B'' @ [newline] @ ''    completed: true'' @ [newline] @ ''    parallel_group: -2''"
  have ev: "tasks (parseSimpleYaml ?doc) =
     [\<lparr>title = ''A'', completed = False, parallel_group = Some (Fin 123456789012345683968)\<rparr>,
      \<lparr>title = ''B'', completed = True, parallel_group = Some (Fin (- 2))\<rparr>]"
    by code_simp
  then have h: "\<forall>t \<in> set (tasks (parseSimpleYaml ?doc)). \<forall>g. parallel_group t = Some g \<longrightarrow> printsInFull g"
    by (simp add: printsInFull_def)
  have "parseSimpleYaml ?doc = \<lparr>tasks = tasks (parseSimpleYaml ?doc)\<rparr>"
    by (simp only: YamlTaskFile_eta)
  with yaml_roundtrip [OF h] ev
  have "parseSimpleYaml (stringifyYaml (parseSimpleYaml ?doc)) =
     \<lparr>tasks = [\<lparr>title = ''A'', completed = False, parallel_group = Some (Fin 123456789012345683968)\<rparr>,
                \<lparr>title = ''B'', completed = True, parallel_group = Some (Fin (- 2))\<rparr>]\<rparr>"
    by (simp only:)
  with ev show ?thesis by blast
qed

text \<open>
  The claim as stated fails on a group of 22 digits: the number \<open>10^21\<close> is written as
  \<open>1e+21\<close>, which \<open>parseInt\<close> reads as 1.
\<close>

theorem yaml_roundtrip_counterexample:
  "map parallel_group (tasks (parseSimpleYaml (''tasks:'' @ [newline] @ ''  - title: A'' @ [newline] @
      ''    parallel_group: 1000000000000000000000''))) = [Some (Fin 1000000000000000000000)] \<and>
   map parallel_group (tasks (parseSimpleYaml (stringifyYaml (parseSimpleYaml (''tasks:'' @ [newline] @
      ''  - title: A'' @ [newline] @ ''    parallel_group: 1000000000000000000000''))))) = [Some (Fin 1)]"
  by code_simp

lemma completeFirst_absent: "\<forall>t \<in> set ts. title t \<noteq> name \<Longrightarrow> completeFirst name ts = ts"
  by (induction ts) auto

lemma stringifyYaml_nonempty: "stringifyYaml d \<noteq> []"
  by (simp add: stringifyYaml_def)

lemma wf_parseFile:
  assumes "\<forall>t \<in> set (tasks (parseFile f)). \<forall>g. parallel_group t = Some g \<longrightarrow> printsInFull g"
  shows "\<forall>t \<in> set (tasks (parseFile f)). wfTask t"
proof (cases "readFile f = []")
  case True
  then show ?thesis by (simp add: parseFile_def)
next
  case False
  with assms wf_parsed [of "readFile f"] show ?thesis by (simp add: parseFile_def)
qed

text \<open>
  Claim C10, as amended.  When no parsed task has the given title and the parsed
  \<open>parallel_group\<close> values are finite and below \<open>10^21\<close> in absolute value,
  \<open>markComplete\<close> writes the parsed document in canonical form, and parsing the file
  again gives the same tasks with the same \<open>title\<close>, \<open>completed\<close> and
  \<open>parallel_group\<close>.
\<close>

theorem yaml_markComplete_absent:
  assumes "\<forall>t \<in> set (tasks (parseFile f)). title t \<noteq> name"
    and "\<forall>t \<in> set (tasks (parseFile f)). \<forall>g. parallel_group t = Some g \<longrightarrow> printsInFull g"
  shows "yaml_markComplete name f = Some (stringifyYaml (parseFile f)) \<and>
         parseFile (yaml_markComplete name f) = parseFile f"
proof -
  have w: "yaml_markComplete name f = Some (stringifyYaml (parseFile f))"
    using completeFirst_absent [OF assms(1)]
    by (simp add: yaml_markComplete_def writeFile_def Let_def)
  have "parseSimpleYaml (stringifyYaml \<lparr>tasks = tasks (parseFile f)\<rparr>) = \<lparr>tasks = tasks (parseFile f)\<rparr>"
    by (rule parse_stringify [OF wf_parseFile [OF assms(2)]])
  then have "parseSimpleYaml (stringifyYaml (parseFile f)) = parseFile f"
    by (simp only: YamlTaskFile_eta)
  with w show ?thesis
    by (simp add: parseFile_def [of "Some _"] readFile_def stringifyYaml_nonempty)
qed

theorem yaml_markComplete_absent_witness:
  "tasks (parseFile (Some (''tasks:'' @ [newline] @ ''  - title: A'' @ [newline] @
      ''    note: x'' @ [newline] @ ''    parallel_group: 1''))) =
     [\<lparr>title = ''A'', completed = False, parallel_group = Some (Fin 1)\<rparr>] \<and>
   tasks (parseFile (yaml_markComplete ''B'' (Some (''tasks:'' @ [newline] @ ''  - title: A'' @ [newline] @
      ''    note: x'' @ [newline] @ ''    parallel_group: 1'')))) =
     [\<lparr>title = ''A'', completed = False, parallel_group = Some (Fin 1)\<rparr>]"
proof -
  let ?f = "Some (''tasks:'' @ [newline] @ ''  - title: A'' @ [newline] @
      ''    note: x'' @ [newline] @ ''    parallel_group: 1'')"
  have ev: "tasks (parseFile ?f) = [\<lparr>title = ''A'', completed = False, parallel_group = Some (Fin 1)\<rparr>]"
    by code_simp
  then have h1: "\<forall>t \<in> set (tasks (parseFile ?f)). title t \<noteq> ''B''" by simp
  from ev have h2: "\<forall>t \<in> set (tasks (parseFile ?f)). \<forall>g. parallel_group t = Some g \<longrightarrow> printsInFull g"
    by (simp add: printsInFull_def)
  from yaml_markComplete_absent [OF h1 h2]
  have "parseFile (yaml_markComplete ''B'' ?f) = parseFile ?f" by blast
  with ev show ?thesis by simp
qed

text \<open>
  The claim as stated fails on a group of 22 digits, for a title no task has: the group
  is read back as 1.
\<close>

theorem yaml_markComplete_absent_counterexample:
  "map title (tasks (parseFile (Some (''tasks:'' @ [newline] @ ''  - title: A'' @ [newline] @
      ''    parallel_group: 1000000000000000000000'')))) = [''A''] \<and>
   map parallel_group (tasks (parseFile (Some (''tasks:'' @ [newline] @ ''  - title: A'' @ [newline] @
      ''    parallel_group: 1000000000000000000000'')))) = [Some (Fin 1000000000000000000000)] \<and>
   map parallel_group (tasks (parseFile (yaml_markComplete ''B'' (Some (''tasks:'' @ [newline] @
      ''  - title: A'' @ [newline] @ ''    parallel_group: 1000000000000000000000''))))) =
     [Some (Fin 1)]"
  by code_simp

end
